theory Spec2Isabelle
  imports Main "HOL-Library.Sublist" "HOL-Library.Multiset"
begin

section \<open>Strings\<close>

text \<open>
  A JavaScript string is modelled as a \<^typ>\<open>string\<close>: a list of code units, each below 256
  (the Latin-1 range). Code units above that range are outside the model. \<open>length\<close> is the
  source's \<open>.length\<close>.
\<close>

definition newline :: char where
  "newline = CHR 0x0A"

text \<open>The characters matched by \<open>\s\<close> and removed by \<open>trim()\<close>, within the 8-bit range:
  tab, line feed, vertical tab, form feed, carriage return, space, no-break space.\<close>

definition is_space :: "char \<Rightarrow> bool" where
  "is_space c \<longleftrightarrow> c \<in> {CHR 0x09, CHR 0x0A, CHR 0x0B, CHR 0x0C, CHR 0x0D, CHR 0x20, CHR 0xA0}"

text \<open>The character class \<open>[.!?]\<close>.\<close>

definition is_terminator :: "char \<Rightarrow> bool" where
  "is_terminator c \<longleftrightarrow> c \<in> {CHR ''.'', CHR ''!'', CHR ''?''}"

text \<open>\<open>s.trim()\<close>\<close>

definition trim :: "string \<Rightarrow> string" where
  "trim s = rev (dropWhile is_space (rev (dropWhile is_space s)))"


text \<open>The decimal rendering of a non-negative integer, as a template literal prints it;
  \<open>digit\<close> is only applied to numbers below ten.\<close>

definition digit :: "nat \<Rightarrow> char" where
  "digit d = ''0123456789'' ! d"

fun dec :: "nat \<Rightarrow> string" where
  "dec n = (if n < 10 then [digit n] else dec (n div 10) @ [digit (n mod 10)])"

declare dec.simps [simp del]

section \<open>Chunker (sync route, lines 72-91)\<close>

text \<open>
  \<open>text.split(/\n\n+/)\<close>: the scan tries the pattern at each position; a match is a maximal
  run of two or more line feeds; the text before it is emitted and the scan resumes behind
  the run. The first argument is the fragment collected so far.
\<close>

function split_paragraphs_from :: "string \<Rightarrow> string \<Rightarrow> string list" where
  "split_paragraphs_from cur [] = [cur]"
| "split_paragraphs_from cur (c # cs) =
     (if c = newline \<and> cs \<noteq> [] \<and> hd cs = newline
      then cur # split_paragraphs_from [] (dropWhile (\<lambda>x. x = newline) cs)
      else split_paragraphs_from (cur @ [c]) cs)"
  by pat_completeness auto
termination
  by (relation "measure (\<lambda>(cur, s). length s)")
     (auto simp: less_Suc_eq_le length_dropWhile_le)

definition split_paragraphs :: "string \<Rightarrow> string list" where
  "split_paragraphs text = split_paragraphs_from [] text"

text \<open>
  \<open>text.split(/[.!?]+\s+/)\<close>: a match at a position is a maximal run of one or more
  terminators followed by a maximal run of one or more white-space characters.
\<close>

function split_sentences_from :: "string \<Rightarrow> string \<Rightarrow> string list" where
  "split_sentences_from cur [] = [cur]"
| "split_sentences_from cur (c # cs) =
     (let after_terms = dropWhile is_terminator cs in
      if is_terminator c \<and> after_terms \<noteq> [] \<and> is_space (hd after_terms)
      then cur # split_sentences_from [] (dropWhile is_space after_terms)
      else split_sentences_from (cur @ [c]) cs)"
  by pat_completeness auto
termination
proof (relation "measure (\<lambda>(cur, s). length s)")
  show "wf (measure (\<lambda>(cur, s). length s))" by simp
next
  fix cur :: string and c cs x
  assume "x = dropWhile is_terminator cs"
  have "length (dropWhile is_space (dropWhile is_terminator cs)) \<le> length cs"
    using length_dropWhile_le [of is_space "dropWhile is_terminator cs"]
          length_dropWhile_le [of is_terminator cs] by linarith
  then show "(([], dropWhile is_space x), cur, c # cs) \<in> measure (\<lambda>(cur, s). length s)"
    using \<open>x = dropWhile is_terminator cs\<close> by simp
next
  fix cur :: string and c cs x
  show "((cur @ [c], cs), cur, c # cs) \<in> measure (\<lambda>(cur, s). length s)" by simp
qed

definition split_sentences :: "string \<Rightarrow> string list" where
  "split_sentences text = split_sentences_from [] text"

text \<open>
  The fixed-size fallback: \<open>for (i = 0; i < text.length; i += chunkSize)\<close> takes
  \<open>text.substring(i, i + chunkSize)\<close>, which is the first \<open>chunkSize\<close> characters of what
  is left of the text.
\<close>

definition chunkSize :: nat where
  "chunkSize = 500"

function windows :: "string \<Rightarrow> string list" where
  "windows s = (if s = [] then [] else take chunkSize s # windows (drop chunkSize s))"
  by pat_completeness auto
termination
  by (relation "measure length") (auto simp: chunkSize_def)

declare windows.simps [simp del]

definition paragraphChunks :: "string \<Rightarrow> string list" where
  "paragraphChunks text = filter (\<lambda>chunk. length (trim chunk) > 20) (split_paragraphs text)"

definition sentenceChunks :: "string \<Rightarrow> string list" where
  "sentenceChunks text = filter (\<lambda>chunk. length (trim chunk) > 20) (split_sentences text)"

definition fixedChunks :: "string \<Rightarrow> string list" where
  "fixedChunks text = filter (\<lambda>chunk. length chunk > 20) (map trim (windows text))"

text \<open>The value of \<open>chunks\<close> at line 93.\<close>

definition chunkText :: "string \<Rightarrow> string list" where
  "chunkText text =
     (if length (paragraphChunks text) > 0 then paragraphChunks text
      else if length (sentenceChunks text) > 0 then sentenceChunks text
      else fixedChunks text)"

subsection \<open>Predicates and reference definitions used by the statements\<close>

text \<open>The text contains a blank-line separator: two consecutive line feeds.\<close>

fun has_blank_line :: "string \<Rightarrow> bool" where
  "has_blank_line (a # b # cs) = ((a = newline \<and> b = newline) \<or> has_blank_line (b # cs))"
| "has_blank_line _ = False"

text \<open>The text contains a sentence terminator directly followed by white space.\<close>

fun has_sentence_end :: "string \<Rightarrow> bool" where
  "has_sentence_end (a # b # cs) = ((is_terminator a \<and> is_space b) \<or> has_sentence_end (b # cs))"
| "has_sentence_end _ = False"

text \<open>Removal of trailing white space only; \<open>trim\<close> is this after the leading white space
  is dropped.\<close>

definition rtrim :: "string \<Rightarrow> string" where
  "rtrim s = rev (dropWhile is_space (rev s))"

text \<open>
  The chunker as the specification words it: three tiers, each keeping the fragments whose
  trimmed length exceeds 20, and the result is the first tier that produces at least one
  fragment.
\<close>

definition first_nonempty_tier :: "string list list \<Rightarrow> string list" where
  "first_nonempty_tier tiers = (case filter (\<lambda>t. t \<noteq> []) tiers of [] \<Rightarrow> [] | t # _ \<Rightarrow> t)"

definition chunk_spec :: "string \<Rightarrow> string list" where
  "chunk_spec text = first_nonempty_tier
     [filter (\<lambda>f. 20 < length (trim f)) (split_paragraphs text),
      filter (\<lambda>f. 20 < length (trim f)) (split_sentences text),
      filter (\<lambda>f. 20 < length (trim f)) (map trim (windows text))]"

section \<open>External collaborators\<close>

text \<open>
  A thrown value is either an \<open>Error\<close> carrying a message or some other value. The handlers
  of the routes read it through \<open>error instanceof Error ? error.message : 'Unknown error'\<close>.
\<close>

datatype exn = Error string | Thrown

fun errorMessage :: "exn \<Rightarrow> string" where
  "errorMessage (Error message) = message"
| "errorMessage Thrown = ''Unknown error''"

text \<open>
  An awaited call to the outside world (cloud drive, embedding service, vector index,
  language model) takes the state of the world and returns the call's result, a thrown
  value or a value, with the world it leaves behind. No assumption is made on what a
  call returns: two calls with the same arguments may differ.
\<close>

type_synonym ('w, 'a) io = "'w \<Rightarrow> (exn + 'a) \<times> 'w"

text \<open>An optional string is truthy when it is present and not empty.\<close>

definition truthy :: "string option \<Rightarrow> bool" where
  "truthy v = (case v of None \<Rightarrow> False | Some s \<Rightarrow> s \<noteq> [])"

text \<open>\<open>a || b\<close> on optional strings, and with a string default.\<close>

definition or_opt :: "string option \<Rightarrow> string option \<Rightarrow> string option" where
  "or_opt a b = (if truthy a then a else b)"

definition or_else :: "string option \<Rightarrow> string \<Rightarrow> string" where
  "or_else a d = (case a of None \<Rightarrow> d | Some s \<Rightarrow> if s = [] then d else s)"

text \<open>A file of the folder listing: \<open>{id, name, mimeType}\<close>, each possibly missing.\<close>

record drive_file =
  df_id :: "string option"
  df_name :: "string option"
  df_mimeType :: "string option"

text \<open>
  The metadata of an indexed vector. The sync route writes \<open>fileId\<close>, \<open>title\<close>, \<open>text\<close>,
  \<open>chunkIndex\<close> and \<open>mimeType\<close>; the preview route also reads the keys \<open>file_id\<close>,
  \<open>chunk_index\<close> and \<open>content\<close>. String-valued keys hold strings and index keys hold
  integers; a missing key is \<open>None\<close>.
\<close>

record metadata =
  md_fileId :: "string option"
  md_file_id :: "string option"
  md_title :: "string option"
  md_text :: "string option"
  md_content :: "string option"
  md_chunkIndex :: "int option"
  md_chunk_index :: "int option"
  md_mimeType :: "string option"

text \<open>The unit of an upsert, \<open>{id, values, metadata}\<close>; \<open>'v\<close> is the embedding.\<close>

record 'v vector =
  vec_id :: string
  vec_values :: 'v
  vec_metadata :: metadata

text \<open>A match of a similarity query; its score is read by neither route modelled here.\<close>

record pmatch =
  m_id :: string
  m_metadata :: "metadata option"

text \<open>
  The functions the routes import. \<open>upsertToPinecone\<close> and \<open>queryPinecone\<close> are modelled
  on their own in the section on the vector store client; the routes are verified for
  every behaviour of the imported functions.
\<close>

record ('w, 'v) services =
  listFilesInFolder :: "string \<Rightarrow> ('w, drive_file list) io"
  getFileContent :: "string \<Rightarrow> string \<Rightarrow> ('w, string) io"
  extractTextFromDocument :: "string \<Rightarrow> string \<Rightarrow> ('w, string) io"
  getEmbedding :: "string \<Rightarrow> ('w, 'v) io"
  upsertToPinecone :: "'v vector list \<Rightarrow> ('w, unit) io"
  queryPinecone :: "'v \<Rightarrow> nat \<Rightarrow> ('w, pmatch list) io"

section \<open>Ingestion orchestrator (sync route)\<close>

record report_entry =
  re_name :: string
  re_chunks :: nat
  re_error :: "string option"

text \<open>The three accumulators of the handler, lines 34-36.\<close>

record sync_state =
  processedFiles :: "report_entry list"
  totalChunks :: nat
  failedFileDetails :: "(string \<times> string) list"

text \<open>
  Lines 104-120: the loop over \<open>chunkIndex\<close> that embeds each chunk and appends a vector
  to \<open>vectors\<close>. A throwing \<open>getEmbedding\<close> leaves the loop.
\<close>

fun embedChunks ::
  "('w, 'v) services \<Rightarrow> string \<Rightarrow> string \<Rightarrow> string option \<Rightarrow> string list \<Rightarrow> nat
   \<Rightarrow> 'v vector list \<Rightarrow> ('w, 'v vector list) io" where
  "embedChunks sv fid fname mime [] chunkIndex vectors w = (Inr vectors, w)"
| "embedChunks sv fid fname mime (chunk # rest) chunkIndex vectors w =
     (case getEmbedding sv chunk w of
        (Inl e, w') \<Rightarrow> (Inl e, w')
      | (Inr embedding, w') \<Rightarrow>
          embedChunks sv fid fname mime rest (chunkIndex + 1)
            (vectors @
             [\<lparr>vec_id = fid @ ''-chunk-'' @ dec chunkIndex,
               vec_values = embedding,
               vec_metadata =
                 \<lparr>md_fileId = Some fid, md_file_id = None, md_title = Some fname,
                  md_text = Some chunk, md_content = None,
                  md_chunkIndex = Some (int chunkIndex), md_chunk_index = None,
                  md_mimeType = mime\<rparr>\<rparr>]) w')"

text \<open>
  The body of the \<open>try\<close> block, lines 43-129, for a file whose id and name are present.
  It returns the accumulators as the body leaves them, or the value thrown. Every statement
  that can throw comes before the body's only update of the accumulators.
\<close>

definition processFile ::
  "('w, 'v) services \<Rightarrow> string \<Rightarrow> string \<Rightarrow> string option \<Rightarrow> sync_state
   \<Rightarrow> ('w, sync_state) io" where
  "processFile sv fid fname mime st w =
     (case getFileContent sv fid (or_else mime ''text/plain'') w of
        (Inl e, w1) \<Rightarrow> (Inl e, w1)
      | (Inr buffer, w1) \<Rightarrow>
          if length buffer = 0
          then (Inr (st\<lparr>processedFiles := processedFiles st @
                  [\<lparr>re_name = fname, re_chunks = 0, re_error = Some ''File is empty (0 bytes)''\<rparr>]\<rparr>), w1)
          else
            (case extractTextFromDocument sv buffer (or_else mime ''text/plain'') w1 of
               (Inl e, w2) \<Rightarrow> (Inl e, w2)
             | (Inr text, w2) \<Rightarrow>
                 if text = [] \<or> length (trim text) = 0
                 then (Inr (st\<lparr>processedFiles := processedFiles st @
                         [\<lparr>re_name = fname, re_chunks = 0, re_error = Some ''No text extracted''\<rparr>]\<rparr>), w2)
                 else
                   (let chunks = chunkText text in
                    if length chunks = 0
                    then (Inr (st\<lparr>processedFiles := processedFiles st @
                            [\<lparr>re_name = fname, re_chunks = 0,
                              re_error = Some ''No valid chunks created''\<rparr>]\<rparr>), w2)
                    else
                      (case embedChunks sv fid fname mime chunks 0 [] w2 of
                         (Inl e, w3) \<Rightarrow> (Inl e, w3)
                       | (Inr vectors, w3) \<Rightarrow>
                           (case upsertToPinecone sv vectors w3 of
                              (Inl e, w4) \<Rightarrow> (Inl e, w4)
                            | (Inr u, w4) \<Rightarrow>
                                (Inr (st\<lparr>totalChunks := totalChunks st + length vectors,
                                        processedFiles := processedFiles st @
                                          [\<lparr>re_name = fname, re_chunks = length vectors,
                                            re_error = None\<rparr>]\<rparr>), w4))))))"

text \<open>
  The loop over the listing, lines 38-143: a file without id or name is skipped; a thrown
  value is caught and recorded in both \<open>failedFileDetails\<close> and \<open>processedFiles\<close>.
\<close>

fun syncLoop ::
  "('w, 'v) services \<Rightarrow> drive_file list \<Rightarrow> sync_state \<Rightarrow> 'w \<Rightarrow> sync_state \<times> 'w" where
  "syncLoop sv [] st w = (st, w)"
| "syncLoop sv (file # files) st w =
     (case (df_id file, df_name file) of
        (Some fid, Some fname) \<Rightarrow>
          if fid = [] \<or> fname = [] then syncLoop sv files st w
          else
            (case processFile sv fid fname (df_mimeType file) st w of
               (Inr st', w') \<Rightarrow> syncLoop sv files st' w'
             | (Inl error, w') \<Rightarrow>
                 syncLoop sv files
                   (st\<lparr>failedFileDetails := failedFileDetails st @ [(fname, errorMessage error)],
                       processedFiles := processedFiles st @
                         [\<lparr>re_name = fname, re_chunks = 0,
                           re_error = Some (errorMessage error)\<rparr>]\<rparr>) w')
      | _ \<Rightarrow> syncLoop sv files st w)"

text \<open>
  The response of the handler. The \<open>message\<close> field, a sentence built from the two
  counters, is left out; \<open>failedFileDetails\<close> is present only when it is not empty.
\<close>

record sync_report =
  sr_totalFiles :: nat
  sr_totalChunks :: nat
  sr_processedFiles :: "report_entry list"
  sr_failedFileDetails :: "(string \<times> string) list option"

datatype sync_response =
    SyncBadRequest string
  | SyncServerError string string
  | SyncOk sync_report

definition syncPOST ::
  "('w, 'v) services \<Rightarrow> string option \<Rightarrow> string option \<Rightarrow> 'w \<Rightarrow> sync_response \<times> 'w" where
  "syncPOST sv folderIdParam GOOGLE_DRIVE_FOLDER_ID w =
     (case or_opt folderIdParam GOOGLE_DRIVE_FOLDER_ID of
        None \<Rightarrow> (SyncBadRequest ''Folder ID is required'', w)
      | Some folderId \<Rightarrow>
          if folderId = [] then (SyncBadRequest ''Folder ID is required'', w)
          else
            (case listFilesInFolder sv folderId w of
               (Inl e, w1) \<Rightarrow>
                 (SyncServerError ''Failed to sync Google Drive files'' (errorMessage e), w1)
             | (Inr files, w1) \<Rightarrow>
                 if length files = 0
                 then (SyncOk \<lparr>sr_totalFiles = 0, sr_totalChunks = 0, sr_processedFiles = [],
                                sr_failedFileDetails = None\<rparr>, w1)
                 else
                   (case syncLoop sv files
                           \<lparr>processedFiles = [], totalChunks = 0, failedFileDetails = []\<rparr> w1 of
                      (st, w2) \<Rightarrow>
                        (SyncOk \<lparr>sr_totalFiles = length (processedFiles st),
                                 sr_totalChunks = totalChunks st,
                                 sr_processedFiles = processedFiles st,
                                 sr_failedFileDetails =
                                   (if length (failedFileDetails st) > 0
                                    then Some (failedFileDetails st) else None)\<rparr>, w2))))"

text \<open>A file of the listing is processed when its id and its name are present and not empty.\<close>

definition has_id_and_name :: "drive_file \<Rightarrow> bool" where
  "has_id_and_name file \<longleftrightarrow> truthy (df_id file) \<and> truthy (df_name file)"

text \<open>Appending the report of one run of the loop, started from empty accumulators, to
  accumulators already filled.\<close>

definition empty_state :: sync_state where
  "empty_state = \<lparr>processedFiles = [], totalChunks = 0, failedFileDetails = []\<rparr>"

definition append_state :: "sync_state \<Rightarrow> sync_state \<Rightarrow> sync_state" where
  "append_state st d =
     \<lparr>processedFiles = processedFiles st @ processedFiles d,
      totalChunks = totalChunks st + totalChunks d,
      failedFileDetails = failedFileDetails st @ failedFileDetails d\<rparr>"

text \<open>
  A concrete world for the examples: the listing has four files, the last without a name;
  the second file cannot be read by the text extractor; every other call succeeds.
\<close>

definition demo_files :: "drive_file list" where
  "demo_files =
     [\<lparr>df_id = Some ''f1'', df_name = Some ''one.txt'', df_mimeType = None\<rparr>,
      \<lparr>df_id = Some ''f2'', df_name = Some ''two.pdf'', df_mimeType = Some ''application/pdf''\<rparr>,
      \<lparr>df_id = Some ''f3'', df_name = Some ''three.txt'', df_mimeType = None\<rparr>,
      \<lparr>df_id = Some ''f4'', df_name = None, df_mimeType = None\<rparr>]"

definition demo_services :: "(unit, nat) services" where
  "demo_services =
     \<lparr>listFilesInFolder = (\<lambda>folderId w. (Inr demo_files, w)),
      getFileContent = (\<lambda>fid mime w. (Inr fid, w)),
      extractTextFromDocument = (\<lambda>buffer mime w.
         if buffer = ''f2'' then (Inl (Error ''corrupt file''), w)
         else (Inr ''abcdefghijklmnopqrstuvwxyz'', w)),
      getEmbedding = (\<lambda>text w. (Inr 0, w)),
      upsertToPinecone = (\<lambda>vectors w. (Inr (), w)),
      queryPinecone = (\<lambda>queryVector topK w. (Inr [], w))\<rparr>"

text \<open>
  The ways in which the body of the per-file \<open>try\<close> throws. \<open>embedsAll sv chunks w w'\<close>: the
  embedding call returns for every chunk of \<open>chunks\<close>, in order, taking the world from \<open>w\<close> to
  \<open>w'\<close>. \<open>fileThrows sv fid fname mime w e w'\<close>: started in world \<open>w\<close>, one of the four awaited
  calls of the body throws \<open>e\<close>, leaving world \<open>w'\<close>: the download; or the text extraction of a
  non-empty buffer; or the embedding of some chunk, all chunks before it being embedded; or
  the upsert of the vectors of all chunks.
\<close>

inductive embedsAll :: "('w, 'v) services \<Rightarrow> string list \<Rightarrow> 'w \<Rightarrow> 'w \<Rightarrow> bool"
  for sv :: "('w, 'v) services" where
  none: "embedsAll sv [] w w"
| more: "getEmbedding sv chunk w = (Inr embedding, w1) \<Longrightarrow> embedsAll sv rest w1 w'
         \<Longrightarrow> embedsAll sv (chunk # rest) w w'"

inductive fileThrows ::
  "('w, 'v) services \<Rightarrow> string \<Rightarrow> string \<Rightarrow> string option \<Rightarrow> 'w \<Rightarrow> exn \<Rightarrow> 'w \<Rightarrow> bool"
  for sv :: "('w, 'v) services" and fid :: string and fname :: string and mime :: "string option" where
  download:
    "getFileContent sv fid (or_else mime ''text/plain'') w = (Inl e, w')
     \<Longrightarrow> fileThrows sv fid fname mime w e w'"
| extraction:
    "getFileContent sv fid (or_else mime ''text/plain'') w = (Inr buffer, w1) \<Longrightarrow> buffer \<noteq> []
     \<Longrightarrow> extractTextFromDocument sv buffer (or_else mime ''text/plain'') w1 = (Inl e, w')
     \<Longrightarrow> fileThrows sv fid fname mime w e w'"
| embedding:
    "getFileContent sv fid (or_else mime ''text/plain'') w = (Inr buffer, w1) \<Longrightarrow> buffer \<noteq> []
     \<Longrightarrow> extractTextFromDocument sv buffer (or_else mime ''text/plain'') w1 = (Inr extracted, w2)
     \<Longrightarrow> trim extracted \<noteq> []
     \<Longrightarrow> chunkText extracted = embedded @ chunk # rest
     \<Longrightarrow> embedsAll sv embedded w2 w3
     \<Longrightarrow> getEmbedding sv chunk w3 = (Inl e, w')
     \<Longrightarrow> fileThrows sv fid fname mime w e w'"
| upsert:
    "getFileContent sv fid (or_else mime ''text/plain'') w = (Inr buffer, w1) \<Longrightarrow> buffer \<noteq> []
     \<Longrightarrow> extractTextFromDocument sv buffer (or_else mime ''text/plain'') w1 = (Inr extracted, w2)
     \<Longrightarrow> trim extracted \<noteq> []
     \<Longrightarrow> chunkText extracted \<noteq> []
     \<Longrightarrow> embedChunks sv fid fname mime (chunkText extracted) 0 [] w2 = (Inr vectors, w3)
     \<Longrightarrow> upsertToPinecone sv vectors w3 = (Inl e, w')
     \<Longrightarrow> fileThrows sv fid fname mime w e w'"





section \<open>Document reconstruction (preview route)\<close>














section \<open>Vector store client (lib/pinecone.ts)\<close>

text \<open>The three environment variables the module reads; each may be unset.\<close>

record pinecone_env =
  PINECONE_API_KEY :: "string option"
  PINECONE_ENVIRONMENT :: "string option"
  PINECONE_INDEX_NAME :: "string option"

text \<open>The client object built by \<open>new Pinecone({apiKey})\<close>.\<close>

record pinecone =
  pc_apiKey :: string

text \<open>
  The operations of the vendor's client that the module calls, as awaited calls to the
  outside world: \<open>client.index(indexName).query\<close> and \<open>.upsert\<close>, on the namespace when one
  is given. The query answers with its \<open>matches\<close>, which may be absent.
\<close>

record ('w, 'v) pinecone_sdk =
  index_query :: "pinecone \<Rightarrow> string \<Rightarrow> string option \<Rightarrow> 'v \<Rightarrow> nat \<Rightarrow> ('w, pmatch list option) io"
  index_upsert :: "pinecone \<Rightarrow> string \<Rightarrow> string option \<Rightarrow> 'v vector list \<Rightarrow> ('w, unit) io"

text \<open>
  \<open>getPineconeClient\<close>, lines 5-22. The module variable \<open>pineconeClient\<close> is passed in and
  returned. The environment is read at each call that finds the variable empty.
\<close>

definition getPineconeClient ::
  "pinecone_env \<Rightarrow> pinecone option \<Rightarrow> (exn + pinecone) \<times> pinecone option" where
  "getPineconeClient env pineconeClient =
     (case pineconeClient of
        Some client \<Rightarrow> (Inr client, pineconeClient)
      | None \<Rightarrow>
          if \<not> truthy (PINECONE_API_KEY env) \<or> \<not> truthy (PINECONE_ENVIRONMENT env)
          then (Inl (Error ''Pinecone API key and environment must be set''), None)
          else (Inr \<lparr>pc_apiKey = or_else (PINECONE_API_KEY env) []\<rparr>,
                Some \<lparr>pc_apiKey = or_else (PINECONE_API_KEY env) []\<rparr>))"

text \<open>
  \<open>queryPinecone\<close>, lines 24-48, and \<open>upsertToPinecone\<close>, lines 50-85, of the module (the
  suffix tells them from the handles the routes import). \<open>topK\<close> defaults to 5.
\<close>

definition queryPineconeImpl ::
  "pinecone_env \<Rightarrow> ('w, 'v) pinecone_sdk \<Rightarrow> 'v \<Rightarrow> nat option \<Rightarrow> string option
   \<Rightarrow> pinecone option \<Rightarrow> 'w \<Rightarrow> ((exn + pmatch list) \<times> 'w) \<times> pinecone option" where
  "queryPineconeImpl env sdk queryVector topK namespace pineconeClient w =
     (case getPineconeClient env pineconeClient of
        (Inl e, pineconeClient') \<Rightarrow> ((Inl e, w), pineconeClient')
      | (Inr client, pineconeClient') \<Rightarrow>
          (let indexName = or_else (PINECONE_INDEX_NAME env) ''adacompliance-index'' in
           case index_query sdk client indexName (if truthy namespace then namespace else None)
                  queryVector (case topK of None \<Rightarrow> 5 | Some k \<Rightarrow> k) w of
             (Inl e, w') \<Rightarrow> ((Inl e, w'), pineconeClient')
           | (Inr matches, w') \<Rightarrow>
               ((Inr (case matches of None \<Rightarrow> [] | Some ms \<Rightarrow> ms), w'), pineconeClient')))"

definition upsertToPineconeImpl ::
  "pinecone_env \<Rightarrow> ('w, 'v) pinecone_sdk \<Rightarrow> 'v vector list \<Rightarrow> string option
   \<Rightarrow> pinecone option \<Rightarrow> 'w \<Rightarrow> ((exn + unit) \<times> 'w) \<times> pinecone option" where
  "upsertToPineconeImpl env sdk vectors namespace pineconeClient w =
     (case getPineconeClient env pineconeClient of
        (Inl e, pineconeClient') \<Rightarrow> ((Inl e, w), pineconeClient')
      | (Inr client, pineconeClient') \<Rightarrow>
          (let indexName = or_else (PINECONE_INDEX_NAME env) ''adacompliance-index'' in
           case index_upsert sdk client indexName (if truthy namespace then namespace else None)
                  vectors w of
             (Inl error, w') \<Rightarrow>
               ((Inl (Error (''Failed to upsert to Pinecone: '' @ errorMessage error)), w'),
                pineconeClient')
           | (Inr result, w') \<Rightarrow> ((Inr result, w'), pineconeClient')))"

text \<open>
  An environment that sets the API key and the environment name but no index name, and a
  vendor client whose world is the list of index names it was asked for.
\<close>

definition env_without_index :: pinecone_env where
  "env_without_index =
     \<lparr>PINECONE_API_KEY = Some ''key'', PINECONE_ENVIRONMENT = Some ''us-east-1'',
      PINECONE_INDEX_NAME = None\<rparr>"

definition env_unset :: pinecone_env where
  "env_unset =
     \<lparr>PINECONE_API_KEY = None, PINECONE_ENVIRONMENT = None, PINECONE_INDEX_NAME = None\<rparr>"

definition logging_sdk :: "(string list, nat) pinecone_sdk" where
  "logging_sdk =
     \<lparr>index_query = (\<lambda>client indexName namespace queryVector topK w.
                       (Inr (Some []), w @ [indexName])),
      index_upsert = (\<lambda>client indexName namespace vectors w. (Inr (), w @ [indexName]))\<rparr>"

section \<open>Compliance analysis of uploaded PDFs (unnamed part 002)\<close>

text \<open>
  A parsed JSON value. Numbers are kept as integers: only whether a number is zero is
  read here.
\<close>

datatype json =
    JNull
  | JBool bool
  | JNum int
  | JStr string
  | JArr "json list"
  | JObj "(string \<times> json) list"

fun json_truthy :: "json \<Rightarrow> bool" where
  "json_truthy JNull = False"
| "json_truthy (JBool b) = b"
| "json_truthy (JNum n) = (n \<noteq> 0)"
| "json_truthy (JStr s) = (s \<noteq> [])"
| "json_truthy (JArr xs) = True"
| "json_truthy (JObj kvs) = True"

text \<open>\<open>analysis.key\<close> on a value that is not \<open>null\<close>; \<open>None\<close> is \<open>undefined\<close>.\<close>

fun get_prop :: "json \<Rightarrow> string \<Rightarrow> json option" where
  "get_prop (JObj kvs) key = map_of kvs key"
| "get_prop _ key = None"

text \<open>\<open>value || fallback\<close>\<close>

definition or_json :: "json option \<Rightarrow> json \<Rightarrow> json" where
  "or_json v d = (case v of None \<Rightarrow> d | Some j \<Rightarrow> if json_truthy j then j else d)"

text \<open>
  \<open>analysisResponse.match(/\{[\s\S]*\}/)\<close>: the match starts at the first opening brace
  and, the star being greedy, ends at the last closing brace behind it.
\<close>

definition jsonMatch :: "string \<Rightarrow> string option" where
  "jsonMatch s =
     (let from_brace = dropWhile (\<lambda>c. c \<noteq> CHR ''{'') s in
      if from_brace = [] then None
      else
        (let upto_brace = dropWhile (\<lambda>c. c \<noteq> CHR ''}'') (rev (tl from_brace)) in
         if upto_brace = [] then None else Some (CHR ''{'' # rev upto_brace)))"

record pdf_file =
  pf_name :: string
  pf_type :: string
  pf_data :: string

text \<open>
  The imported functions of this route. \<open>extractTextFromDocument\<close> is called with the
  uploaded file here (the suffix tells it from the one of the sync route).
\<close>

record 'w analysis_services =
  extractTextFromDocumentF :: "pdf_file \<Rightarrow> string \<Rightarrow> ('w, string) io"
  findRelevantContext :: "string \<Rightarrow> nat \<Rightarrow> ('w, string) io"
  chatCompletion :: "string \<Rightarrow> string \<Rightarrow> ('w, string) io"

record analysis_result =
  ar_filename :: string
  ar_success :: bool
  ar_error :: "string option"
  ar_risks :: json
  ar_summary :: json
  ar_riskLevel :: json
  ar_wcagConformance :: json

text \<open>The prompt of lines 61-96, a fixed text around the context and the first 8000
  characters of the document.\<close>

definition promptHead :: string where
  \<open>promptHead =
     ''You are an expert in WCAG 2.1 AA compliance. Analyze the following PDF content against WCAG 2.1 AA standards.\<newline>'' @
     ''\<newline>'' @
     ''WCAG 2.1 AA Standards Context:\<newline>''\<close>

definition promptMiddle :: string where
  \<open>promptMiddle =
     ''\<newline>'' @
     ''\<newline>'' @
     ''PDF Content (first 8000 characters):\<newline>''\<close>

definition promptTail :: string where
  \<open>promptTail =
     ''\<newline>'' @
     ''\<newline>'' @
     ''Analyze the PDF for compliance with WCAG 2.1 AA standards. Focus on:\<newline>'' @
     ''1. Perceivable: Alt text for images, captions, color contrast, text alternatives\<newline>'' @
     ''2. Operable: Keyboard navigation, focus indicators, no seizure-inducing content\<newline>'' @
     ''3. Understandable: Language declaration, consistent navigation, form labels, error identification\<newline>'' @
     ''4. Robust: Document structure, tagging, reading order, metadata\<newline>'' @
     ''\<newline>'' @
     ''Provide a comprehensive WCAG 2.1 AA conformance report with this JSON structure:\<newline>'' @
     ''{\<newline>'' @
     ''  "risks": ["specific WCAG 2.1 AA violation 1", "specific WCAG 2.1 AA violation 2", ...],\<newline>'' @
     ''  "summary": "Overall compliance summary against WCAG 2.1 AA",\<newline>'' @
     ''  "riskLevel": "low" | "medium" | "high",\<newline>'' @
     ''  "wcagConformance": {\<newline>'' @
     ''    "level": "A" | "AA" | "AAA" | "Non-conformant",\<newline>'' @
     ''    "passedCriteria": ["WCAG criterion that passed", ...],\<newline>'' @
     ''    "failedCriteria": [\<newline>'' @
     ''      {\<newline>'' @
     ''        "criterion": "WCAG 2.1 criterion code (e.g., 1.1.1)",\<newline>'' @
     ''        "name": "Criterion name",\<newline>'' @
     ''        "level": "A" | "AA" | "AAA",\<newline>'' @
     ''        "description": "Why this criterion failed",\<newline>'' @
     ''        "impact": "Impact on users"\<newline>'' @
     ''      }\<newline>'' @
     ''    ],\<newline>'' @
     ''    "warnings": ["Potential issues that may not be violations", ...]\<newline>'' @
     ''  }\<newline>'' @
     ''}\<newline>'' @
     ''\<newline>'' @
     ''Only return valid JSON, no other text.''\<close>

definition analysisPrompt :: "string \<Rightarrow> string \<Rightarrow> string" where
  "analysisPrompt wcagContext text = promptHead @ wcagContext @ promptMiddle @ take 8000 text @ promptTail"

text \<open>The object assigned to \<open>analysis\<close> in the \<open>catch\<close> of lines 119-132.\<close>

definition fallbackAnalysis :: json where
  "fallbackAnalysis =
     JObj [(''risks'', JArr [JStr ''Unable to parse detailed analysis'']),
           (''summary'', JStr ''PDF analyzed but detailed results unavailable''),
           (''riskLevel'', JStr ''medium''),
           (''wcagConformance'',
              JObj [(''level'', JStr ''Non-conformant''),
                    (''passedCriteria'', JArr []),
                    (''failedCriteria'', JArr []),
                    (''warnings'', JArr [JStr ''Analysis parsing failed''])])]"

text \<open>
  Lines 110-132: the value of \<open>analysis\<close> behind the inner \<open>try\<close>. \<open>JSON_parse\<close> is the
  platform's \<open>JSON.parse\<close>, with \<open>None\<close> for a thrown \<open>SyntaxError\<close>.
\<close>

definition parseAnalysis :: "(string \<Rightarrow> json option) \<Rightarrow> string \<Rightarrow> json" where
  "parseAnalysis JSON_parse analysisResponse =
     (case jsonMatch analysisResponse of
        None \<Rightarrow> fallbackAnalysis
      | Some matched \<Rightarrow>
          (case JSON_parse matched of None \<Rightarrow> fallbackAnalysis | Some analysis \<Rightarrow> analysis))"

definition emptyConformance :: json where
  "emptyConformance =
     JObj [(''level'', JStr ''Non-conformant''), (''passedCriteria'', JArr []),
           (''failedCriteria'', JArr []), (''warnings'', JArr [])]"

definition unreadableConformance :: json where
  "unreadableConformance =
     JObj [(''level'', JStr ''Non-conformant''), (''passedCriteria'', JArr []),
           (''failedCriteria'',
              JArr [JObj [(''criterion'', JStr ''N/A''), (''name'', JStr ''Unable to analyze''),
                          (''level'', JStr ''AA''),
                          (''description'', JStr ''PDF could not be processed for analysis''),
                          (''impact'', JStr ''Cannot determine compliance status'')]]),
           (''warnings'', JArr [])]"

text \<open>
  The body of the \<open>try\<close> block of lines 29-146 for one file: it returns \<open>results\<close> as the
  body leaves it, or the value thrown. Reading a property of \<open>null\<close> throws a \<open>TypeError\<close>
  (the message is the runtime's).
\<close>

definition analyzeFile ::
  "'w analysis_services \<Rightarrow> (string \<Rightarrow> json option) \<Rightarrow> pdf_file \<Rightarrow> analysis_result list
   \<Rightarrow> ('w, analysis_result list) io" where
  "analyzeFile sv JSON_parse pdfFile results w =
     (case extractTextFromDocumentF sv pdfFile (pf_type pdfFile) w of
        (Inl e, w1) \<Rightarrow> (Inl e, w1)
      | (Inr text, w1) \<Rightarrow>
          if text = [] \<or> length (trim text) = 0
          then (Inr (results @
                  [\<lparr>ar_filename = pf_name pdfFile, ar_success = False,
                    ar_error = Some ''No text extracted from PDF'', ar_risks = JArr [],
                    ar_summary = JStr ''Unable to extract text for analysis'',
                    ar_riskLevel = JStr ''high'',
                    ar_wcagConformance = unreadableConformance\<rparr>]), w1)
          else
            (case findRelevantContext sv ''WCAG 2.1 AA compliance standards requirements'' 10 w1 of
               (Inl e, w2) \<Rightarrow> (Inl e, w2)
             | (Inr wcagContext, w2) \<Rightarrow>
                 (case chatCompletion sv (analysisPrompt wcagContext text) wcagContext w2 of
                    (Inl e, w3) \<Rightarrow> (Inl e, w3)
                  | (Inr analysisResponse, w3) \<Rightarrow>
                      (let analysis = parseAnalysis JSON_parse analysisResponse in
                       if analysis = JNull
                       then (Inl (Error ''Cannot read properties of null''), w3)
                       else
                         (Inr (results @
                            [\<lparr>ar_filename = pf_name pdfFile, ar_success = True, ar_error = None,
                              ar_risks = or_json (get_prop analysis ''risks'') (JArr []),
                              ar_summary =
                                or_json (get_prop analysis ''summary'') (JStr ''Analysis completed''),
                              ar_riskLevel = or_json (get_prop analysis ''riskLevel'') (JStr ''medium''),
                              ar_wcagConformance =
                                or_json (get_prop analysis ''wcagConformance'') emptyConformance\<rparr>]),
                          w3)))))"

text \<open>The loop of lines 28-164 with its \<open>catch\<close>.\<close>

fun analyzeLoop ::
  "'w analysis_services \<Rightarrow> (string \<Rightarrow> json option) \<Rightarrow> pdf_file list \<Rightarrow> analysis_result list
   \<Rightarrow> 'w \<Rightarrow> analysis_result list \<times> 'w" where
  "analyzeLoop sv JSON_parse [] results w = (results, w)"
| "analyzeLoop sv JSON_parse (pdfFile # rest) results w =
     (case analyzeFile sv JSON_parse pdfFile results w of
        (Inr results', w') \<Rightarrow> analyzeLoop sv JSON_parse rest results' w'
      | (Inl error, w') \<Rightarrow>
          analyzeLoop sv JSON_parse rest
            (results @
               [\<lparr>ar_filename = pf_name pdfFile, ar_success = False,
                 ar_error = Some (errorMessage error), ar_risks = JArr [],
                 ar_summary = JStr ''Analysis failed'', ar_riskLevel = JStr ''high'',
                 ar_wcagConformance = emptyConformance\<rparr>]) w')"

datatype analysis_response =
    AnalysisBadRequest string
  | AnalysisOk "analysis_result list"

definition analyzePOST ::
  "'w analysis_services \<Rightarrow> (string \<Rightarrow> json option) \<Rightarrow> pdf_file list \<Rightarrow> 'w
   \<Rightarrow> analysis_response \<times> 'w" where
  "analyzePOST sv JSON_parse pdfFiles w =
     (if length pdfFiles = 0 then (AnalysisBadRequest ''No PDF files provided'', w)
      else if length pdfFiles > 10
      then (AnalysisBadRequest ''Maximum 10 PDFs allowed per request'', w)
      else (case analyzeLoop sv JSON_parse pdfFiles [] w of
              (results, w') \<Rightarrow> (AnalysisOk results, w')))"

text \<open>
  For the examples: a language model that answers the first question in prose and the
  later ones with an empty JSON object, its world being the number of questions asked;
  and a parser that knows the empty object only.
\<close>

definition prose_then_json :: "nat analysis_services" where
  "prose_then_json =
     \<lparr>extractTextFromDocumentF = (\<lambda>pdfFile mime w. (Inr (pf_data pdfFile), w)),
      findRelevantContext = (\<lambda>query k w. (Inr ''WCAG context'', w)),
      chatCompletion = (\<lambda>prompt context w.
         (Inr (if w = 0 then ''I am sorry, I cannot produce a report.'' else ''Here it is: {}''),
          Suc w))\<rparr>"

definition parse_empty_object :: "string \<Rightarrow> json option" where
  "parse_empty_object s = (if s = ''{}'' then Some (JObj []) else None)"

section \<open>Discovery crawler (unnamed part 003)\<close>

subsection \<open>String operations\<close>

definition startsWith :: "string \<Rightarrow> string \<Rightarrow> bool" where
  "startsWith s p \<longleftrightarrow> take (length p) s = p"

definition endsWith :: "string \<Rightarrow> string \<Rightarrow> bool" where
  "endsWith s p \<longleftrightarrow> length p \<le> length s \<and> drop (length s - length p) s = p"

fun includes_str :: "string \<Rightarrow> string \<Rightarrow> bool" where
  "includes_str [] p = (p = [])"
| "includes_str (c # cs) p = (startsWith (c # cs) p \<or> includes_str cs p)"

text \<open>\<open>toLowerCase()\<close> on the 8-bit range: the letters A-Z and the accented capitals.\<close>

definition upper_chars :: string where
  "upper_chars = ''ABCDEFGHIJKLMNOPQRSTUVWXYZ'' @
     [CHR 0xC0, CHR 0xC1, CHR 0xC2, CHR 0xC3, CHR 0xC4, CHR 0xC5, CHR 0xC6, CHR 0xC7,
      CHR 0xC8, CHR 0xC9, CHR 0xCA, CHR 0xCB, CHR 0xCC, CHR 0xCD, CHR 0xCE, CHR 0xCF,
      CHR 0xD0, CHR 0xD1, CHR 0xD2, CHR 0xD3, CHR 0xD4, CHR 0xD5, CHR 0xD6,
      CHR 0xD8, CHR 0xD9, CHR 0xDA, CHR 0xDB, CHR 0xDC, CHR 0xDD, CHR 0xDE]"

definition lower_chars :: string where
  "lower_chars = ''abcdefghijklmnopqrstuvwxyz'' @
     [CHR 0xE0, CHR 0xE1, CHR 0xE2, CHR 0xE3, CHR 0xE4, CHR 0xE5, CHR 0xE6, CHR 0xE7,
      CHR 0xE8, CHR 0xE9, CHR 0xEA, CHR 0xEB, CHR 0xEC, CHR 0xED, CHR 0xEE, CHR 0xEF,
      CHR 0xF0, CHR 0xF1, CHR 0xF2, CHR 0xF3, CHR 0xF4, CHR 0xF5, CHR 0xF6,
      CHR 0xF8, CHR 0xF9, CHR 0xFA, CHR 0xFB, CHR 0xFC, CHR 0xFD, CHR 0xFE]"

definition lower_char :: "char \<Rightarrow> char" where
  "lower_char c = (case map_of (zip upper_chars lower_chars) c of None \<Rightarrow> c | Some l \<Rightarrow> l)"

definition toLowerCase :: "string \<Rightarrow> string" where
  "toLowerCase s = map lower_char s"

text \<open>\<open>s.replace(/\/$/, '')\<close>\<close>

definition strip_trailing_slash :: "string \<Rightarrow> string" where
  "strip_trailing_slash s = (if s \<noteq> [] \<and> last s = CHR ''/'' then butlast s else s)"

text \<open>\<open>pathname.split('/').pop()\<close>: what follows the last slash.\<close>

definition last_segment :: "string \<Rightarrow> string" where
  "last_segment p = rev (takeWhile (\<lambda>c. c \<noteq> CHR ''/'') (rev p))"

subsection \<open>The platform: URLs and the network\<close>

text \<open>
  What the crawler reads of a parsed \<open>URL\<close> object: \<open>protocol\<close>, \<open>hostname\<close>, \<open>pathname\<close>,
  \<open>searchParams.toString()\<close>, \<open>href\<close>, and the \<open>href\<close> once \<open>hash\<close> has been set to the
  empty string.
\<close>

record url =
  url_protocol :: string
  url_hostname :: string
  url_pathname :: string
  url_searchParams :: string
  url_href :: string
  url_href_nohash :: string

text \<open>
  The platform is a parameter of the crawler: \<open>new URL(s)\<close> and \<open>new URL(s, base)\<close>, with
  \<open>None\<close> for the \<open>TypeError\<close> they throw on an invalid URL, and \<open>fetchPage\<close>, which answers
  with the page or with \<open>null\<close> (it catches every failure of the request itself) and may
  change the world \<open>'w\<close>.
\<close>

record 'w platform =
  URL_new :: "string \<Rightarrow> url option"
  URL_new_base :: "string \<Rightarrow> string \<Rightarrow> url option"
  fetchPage :: "string \<Rightarrow> 'w \<Rightarrow> string option \<times> 'w"

subsection \<open>Link extraction\<close>

definition is_quote :: "char \<Rightarrow> bool" where
  "is_quote c \<longleftrightarrow> c = CHR 0x22 \<or> c = CHR 0x27"

text \<open>
  The successive matches of \<open>/href=["']([^"']+)["']/gi\<close> in a page, as the \<open>exec\<close> loop of
  line 31 delivers their first group: at a position where \<open>href=\<close> (in any case) and a
  quote are followed by a non-empty run without quotes and then a quote, the run is a match
  and the scan resumes behind the closing quote; elsewhere the scan moves on by one
  character.
\<close>

function hrefs :: "string \<Rightarrow> string list" where
  "hrefs [] = []"
| "hrefs (c # cs) =
     (let s = c # cs;
          behind = drop 6 s;
          link = takeWhile (\<lambda>x. \<not> is_quote x) behind;
          closing = dropWhile (\<lambda>x. \<not> is_quote x) behind
      in if toLowerCase (take 5 s) = ''href='' \<and> length s > 5 \<and> is_quote (s ! 5)
            \<and> link \<noteq> [] \<and> closing \<noteq> []
         then link # hrefs (tl closing)
         else hrefs cs)"
  by pat_completeness auto
termination
proof (relation "measure length")
  show "wf (measure length)" by simp
next
  fix c :: char and cs s behind link closing
  assume "s = c # cs" and b: "behind = drop 6 s"
    and "closing = dropWhile (\<lambda>x. \<not> is_quote x) behind"
  then have "length closing \<le> length (c # cs)"
    using length_dropWhile_le [of "\<lambda>x. \<not> is_quote x" behind] by simp
  moreover assume "toLowerCase (take 5 s) = ''href='' \<and> 5 < length s \<and> is_quote (s ! 5)
    \<and> link \<noteq> [] \<and> closing \<noteq> []"
  then have "closing \<noteq> []" by simp
  ultimately show "(tl closing, c # cs) \<in> measure length" by (cases closing) auto
next
  fix c :: char and cs
  show "(cs, c # cs) \<in> measure length" by simp
qed

declare hrefs.simps [simp del]

text \<open>
  The body of the loop of \<open>extractPDFLinks\<close>, lines 31-67, over the matches that remain;
  \<open>pdfLinks\<close> is the list collected so far. A \<open>TypeError\<close> of \<open>new URL\<close> inside the \<open>try\<close> skips
  the link.
\<close>

fun extractLoop ::
  "'w platform \<Rightarrow> url \<Rightarrow> string \<Rightarrow> nat \<Rightarrow> string list \<Rightarrow> string list \<Rightarrow> string list" where
  "extractLoop pf baseUrlObj baseUrl maxPdfs [] pdfLinks = pdfLinks"
| "extractLoop pf baseUrlObj baseUrl maxPdfs (link0 # rest) pdfLinks =
     (if \<not> length pdfLinks < maxPdfs then pdfLinks
      else if startsWith link0 ''javascript:'' \<or> startsWith link0 ''mailto:''
              \<or> startsWith link0 ''tel:'' \<or> startsWith link0 ''#''
      then extractLoop pf baseUrlObj baseUrl maxPdfs rest pdfLinks
      else
        (case (if startsWith link0 ''/''
               then Some (url_protocol baseUrlObj @ ''//'' @ url_hostname baseUrlObj @ link0)
               else if \<not> startsWith link0 ''http''
               then map_option url_href (URL_new_base pf link0 baseUrl)
               else Some link0) of
           None \<Rightarrow> extractLoop pf baseUrlObj baseUrl maxPdfs rest pdfLinks
         | Some link \<Rightarrow>
             (case URL_new pf link of
                None \<Rightarrow> extractLoop pf baseUrlObj baseUrl maxPdfs rest pdfLinks
              | Some linkUrl \<Rightarrow>
                  if (url_hostname linkUrl = url_hostname baseUrlObj
                      \<or> endsWith (url_hostname linkUrl) (''.'' @ url_hostname baseUrlObj))
                     \<and> (endsWith (toLowerCase (url_pathname linkUrl)) ''.pdf''
                        \<or> includes_str (toLowerCase link) ''.pdf''
                        \<or> includes_str (url_searchParams linkUrl) ''.pdf'')
                  then
                    (let normalizedUrl = strip_trailing_slash (url_href_nohash linkUrl) in
                     if normalizedUrl \<notin> set pdfLinks
                     then extractLoop pf baseUrlObj baseUrl maxPdfs rest (pdfLinks @ [normalizedUrl])
                     else extractLoop pf baseUrlObj baseUrl maxPdfs rest pdfLinks)
                  else extractLoop pf baseUrlObj baseUrl maxPdfs rest pdfLinks)))"

text \<open>\<open>extractPDFLinks\<close>, lines 22-70; \<open>None\<close> when \<open>new URL(baseUrl)\<close> throws.\<close>

definition extractPDFLinks :: "'w platform \<Rightarrow> string \<Rightarrow> string \<Rightarrow> nat \<Rightarrow> string list option" where
  "extractPDFLinks pf html baseUrl maxPdfs =
     (case URL_new pf baseUrl of
        None \<Rightarrow> None
      | Some baseUrlObj \<Rightarrow> Some (extractLoop pf baseUrlObj baseUrl maxPdfs (hrefs html) []))"

subsection \<open>The crawl loop\<close>

definition maxDepth :: nat where
  "maxDepth = 3"

record pdf_link =
  pl_url :: string
  pl_name :: string

text \<open>
  The variables of \<open>crawlForPDFs\<close>, the world, and a log of the calls of \<open>fetchPage\<close>: the
  URL asked for and the answer, latest last. The log is not in the source; it is what the
  properties of the crawl are stated on.
\<close>

record 'w crawl_state =
  visited :: "string set"
  pdfLinks :: "pdf_link list"
  queue :: "string list"
  depthMap :: "string \<rightharpoonup> nat"
  world :: 'w
  fetchLog :: "(string \<times> string option) list"

text \<open>\<open>depthMap.get(url) || 0\<close>\<close>

definition depth_of :: "(string \<rightharpoonup> nat) \<Rightarrow> string \<Rightarrow> nat" where
  "depth_of m u = (case m u of None \<Rightarrow> 0 | Some d \<Rightarrow> d)"

text \<open>Lines 98-107: the found PDFs are appended unless their URL is already listed;
  \<open>None\<close> when \<open>new URL(pdfUrl)\<close> throws.\<close>

fun addPDFs :: "'w platform \<Rightarrow> string list \<Rightarrow> pdf_link list \<Rightarrow> pdf_link list option" where
  "addPDFs pf [] pdfs = Some pdfs"
| "addPDFs pf (pdfUrl # rest) pdfs =
     (if \<exists>p \<in> set pdfs. pl_url p = pdfUrl then addPDFs pf rest pdfs
      else
        (case URL_new pf pdfUrl of
           None \<Rightarrow> None
         | Some urlObj \<Rightarrow>
             (let segment = last_segment (url_pathname urlObj);
                  name = (if segment = [] then ''document.pdf'' else segment)
              in addPDFs pf rest
                   (pdfs @ [\<lparr>pl_url = pdfUrl,
                             pl_name = (if endsWith name ''.pdf'' then name else name @ ''.pdf'')\<rparr>]))))"

text \<open>Lines 113-118: the page links are queued, with their depth, unless visited or
  already given a depth.\<close>

fun enqueueLinks :: "string list \<Rightarrow> nat \<Rightarrow> 'w crawl_state \<Rightarrow> 'w crawl_state" where
  "enqueueLinks [] depth s = s"
| "enqueueLinks (pageLink # rest) depth s =
     enqueueLinks rest depth
       (if pageLink \<notin> visited s \<and> depthMap s pageLink = None
        then s\<lparr>queue := queue s @ [pageLink], depthMap := (depthMap s)(pageLink \<mapsto> depth + 1)\<rparr>
        else s)"

text \<open>The page links of line 112, for a page fetched at \<open>url\<close>.\<close>

definition pageLinksOf :: "'w platform \<Rightarrow> string \<Rightarrow> string \<Rightarrow> string list option" where
  "pageLinksOf pf html url =
     map_option (filter (\<lambda>link. \<not> endsWith link ''.pdf'')) (extractPDFLinks pf html url 50)"

text \<open>
  One turn of the \<open>while\<close> loop, lines 85-120, entered with a non-empty queue. \<open>Inl\<close> is a
  \<open>TypeError\<close> of \<open>new URL\<close> outside a \<open>try\<close>, which ends the crawl.
\<close>

definition crawlStep :: "'w platform \<Rightarrow> nat \<Rightarrow> 'w crawl_state \<Rightarrow> exn + 'w crawl_state" where
  "crawlStep pf maxPdfs s =
     (let url = hd (queue s);
          s1 = s\<lparr>queue := tl (queue s)\<rparr>;
          depth = depth_of (depthMap s) url
      in if url \<in> visited s \<or> depth > maxDepth then Inr s1
         else
           (case fetchPage pf url (world s) of
              (html, w') \<Rightarrow>
                (let s2 = s1\<lparr>visited := insert url (visited s), world := w',
                             fetchLog := fetchLog s @ [(url, html)]\<rparr>
                 in case html of
                      None \<Rightarrow> Inr s2
                    | Some page \<Rightarrow>
                        if page = [] then Inr s2
                        else
                          (case extractPDFLinks pf page url (maxPdfs - length (pdfLinks s)) of
                             None \<Rightarrow> Inl (Error ''Invalid URL'')
                           | Some foundPDFs \<Rightarrow>
                               (case addPDFs pf foundPDFs (pdfLinks s) of
                                  None \<Rightarrow> Inl (Error ''Invalid URL'')
                                | Some pdfs \<Rightarrow>
                                    (let s3 = s2\<lparr>pdfLinks := pdfs\<rparr> in
                                     if length pdfs < maxPdfs \<and> depth < maxDepth
                                     then
                                       (case pageLinksOf pf page url of
                                          None \<Rightarrow> Inl (Error ''Invalid URL'')
                                        | Some pageLinks \<Rightarrow> Inr (enqueueLinks pageLinks depth s3))
                                     else Inr s3))))))"

text \<open>The \<open>while\<close> loop; the option is \<open>None\<close> when it does not end.\<close>

partial_function (option) crawlLoop ::
  "'w platform \<Rightarrow> nat \<Rightarrow> 'w crawl_state \<Rightarrow> (exn + 'w crawl_state) option" where
  "crawlLoop pf maxPdfs s =
     (if queue s \<noteq> [] \<and> length (pdfLinks s) < maxPdfs
      then (case crawlStep pf maxPdfs s of
              Inl e \<Rightarrow> Some (Inl e)
            | Inr s' \<Rightarrow> crawlLoop pf maxPdfs s')
      else Some (Inr s))"

declare crawlLoop.simps [code]

definition crawlInit :: "string \<Rightarrow> 'w \<Rightarrow> 'w crawl_state" where
  "crawlInit startUrl w =
     \<lparr>visited = {}, pdfLinks = [], queue = [startUrl], depthMap = [startUrl \<mapsto> 0],
      world = w, fetchLog = []\<rparr>"

text \<open>\<open>crawlForPDFs\<close>, lines 72-124: the \<open>pdfLinks\<close> of the state the loop ends in.\<close>

definition crawlForPDFs ::
  "'w platform \<Rightarrow> string \<Rightarrow> nat \<Rightarrow> 'w \<Rightarrow> (exn + pdf_link list) option" where
  "crawlForPDFs pf startUrl maxPdfs w =
     map_option (map_sum id pdfLinks) (crawlLoop pf maxPdfs (crawlInit startUrl w))"

text \<open>The states the loop passes through: the initial state, and each state a turn of the
  loop makes from one of them while the loop condition holds.\<close>

inductive crawlReach :: "'w platform \<Rightarrow> nat \<Rightarrow> string \<Rightarrow> 'w \<Rightarrow> 'w crawl_state \<Rightarrow> bool"
  for pf :: "'w platform" and maxPdfs :: nat and startUrl :: string and w :: 'w where
  start: "crawlReach pf maxPdfs startUrl w (crawlInit startUrl w)"
| turn: "crawlReach pf maxPdfs startUrl w s \<Longrightarrow> queue s \<noteq> [] \<Longrightarrow> length (pdfLinks s) < maxPdfs
         \<Longrightarrow> crawlStep pf maxPdfs s = Inr s' \<Longrightarrow> crawlReach pf maxPdfs startUrl w s'"

text \<open>
  A chain of hops along the log: the seed is at zero hops; a page link found on a page
  that the log shows as fetched at \<open>n\<close> hops is at \<open>n + 1\<close> hops.
\<close>

inductive hops ::
  "'w platform \<Rightarrow> (string \<times> string option) list \<Rightarrow> string \<Rightarrow> nat \<Rightarrow> string \<Rightarrow> bool"
  for pf :: "'w platform" and log :: "(string \<times> string option) list" and startUrl :: string where
  seed: "hops pf log startUrl 0 startUrl"
| hop: "hops pf log startUrl n u \<Longrightarrow> (u, Some page) \<in> set log
        \<Longrightarrow> pageLinksOf pf page u = Some links \<Longrightarrow> v \<in> set links
        \<Longrightarrow> hops pf log startUrl (Suc n) v"

text \<open>
  The invariant of the loop: the log has no URL twice and lists the visited set; queued and
  visited URLs have a recorded depth; every recorded depth is at most \<open>maxDepth\<close> and is the
  length of a chain of hops from the seed.
\<close>

definition crawl_inv :: "'w platform \<Rightarrow> string \<Rightarrow> 'w crawl_state \<Rightarrow> bool" where
  "crawl_inv pf startUrl s \<longleftrightarrow>
     distinct (map fst (fetchLog s))
     \<and> fst ` set (fetchLog s) = visited s
     \<and> set (queue s) \<subseteq> dom (depthMap s)
     \<and> visited s \<subseteq> dom (depthMap s)
     \<and> (\<forall>u d. depthMap s u = Some d \<longrightarrow> d \<le> maxDepth \<and> hops pf (fetchLog s) startUrl d u)"

subsection \<open>A platform for the examples\<close>

text \<open>
  A parser for URLs of the plain form \<open>scheme://host/path?query#fragment\<close> (no port, no
  credentials, no escapes, no dot segments), which is all the examples use, and a web
  given as a table from URL to page; the world counts the requests.
\<close>

definition simple_URL :: "string \<Rightarrow> url option" where
  "simple_URL s =
     (let scheme = takeWhile (\<lambda>c. c \<noteq> CHR '':'') s;
          behind = dropWhile (\<lambda>c. c \<noteq> CHR '':'') s
      in if scheme = [] \<or> \<not> startsWith behind ''://'' then None
         else
           (let after = drop 3 behind;
                host = takeWhile (\<lambda>c. c \<noteq> CHR ''/'' \<and> c \<noteq> CHR ''?'' \<and> c \<noteq> CHR ''#'') after;
                tail1 = dropWhile (\<lambda>c. c \<noteq> CHR ''/'' \<and> c \<noteq> CHR ''?'' \<and> c \<noteq> CHR ''#'') after;
                path = takeWhile (\<lambda>c. c \<noteq> CHR ''?'' \<and> c \<noteq> CHR ''#'') tail1;
                tail2 = dropWhile (\<lambda>c. c \<noteq> CHR ''?'' \<and> c \<noteq> CHR ''#'') tail1;
                query = takeWhile (\<lambda>c. c \<noteq> CHR ''#'') tail2;
                fragment = dropWhile (\<lambda>c. c \<noteq> CHR ''#'') tail2;
                pathname = (if path = [] then ''/'' else path)
            in if host = [] then None
               else Some \<lparr>url_protocol = scheme @ '':'', url_hostname = host,
                          url_pathname = pathname, url_searchParams = drop 1 query,
                          url_href = scheme @ ''://'' @ host @ pathname @ query @ fragment,
                          url_href_nohash = scheme @ ''://'' @ host @ pathname @ query\<rparr>))"

definition simple_URL_base :: "string \<Rightarrow> string \<Rightarrow> url option" where
  "simple_URL_base link base =
     (if includes_str link ''://'' then simple_URL link
      else
        (case simple_URL base of
           None \<Rightarrow> None
         | Some b \<Rightarrow>
             simple_URL (url_protocol b @ ''//'' @ url_hostname b
                         @ rev (dropWhile (\<lambda>c. c \<noteq> CHR ''/'') (rev (url_pathname b))) @ link)))"

definition table_platform :: "(string \<times> string) list \<Rightarrow> nat platform" where
  "table_platform pages =
     \<lparr>URL_new = simple_URL, URL_new_base = simple_URL_base,
      fetchPage = (\<lambda>url w. (map_of pages url, Suc w))\<rparr>"

text \<open>The site of the specification's example scenario.\<close>

definition example_site :: "(string \<times> string) list" where
  \<open>example_site =
     [(''https://example.com'', ''<a href="/docs/a.pdf">A</a> <a href="/page2">next</a>''),
      (''https://example.com/page2'', ''<a href="/docs/b.pdf">B</a>'')]\<close>

text \<open>A site whose pages form a chain: each page links to the next one only, through a
  link that the crawler follows.\<close>

definition chain_site :: "(string \<times> string) list" where
  \<open>chain_site =
     [(''https://chain.test'', ''<a href="/s.pdf?p=1">1</a>''),
      (''https://chain.test/s.pdf?p=1'', ''<a href="/s.pdf?p=2">2</a>''),
      (''https://chain.test/s.pdf?p=2'', ''<a href="/s.pdf?p=3">3</a>''),
      (''https://chain.test/s.pdf?p=3'', ''<a href="/s.pdf?p=4">4</a>''),
      (''https://chain.test/s.pdf?p=4'', ''<a href="/s.pdf?p=5">5</a>'')]\<close>

section \<open>Properties of the chunker\<close>

lemma split_paragraphs_from_plain:
  "\<not> has_blank_line t \<Longrightarrow> split_paragraphs_from cur t = [cur @ t]"
proof (induction t arbitrary: cur)
  case Nil
  then show ?case by simp
next
  case (Cons c cs)
  then show ?case by (cases cs) auto
qed

lemma terminator_run_sentence_end:
  "is_terminator c \<Longrightarrow> dropWhile is_terminator cs = x # xs \<Longrightarrow> is_space x
   \<Longrightarrow> has_sentence_end (c # cs)"
proof (induction cs arbitrary: c)
  case Nil
  then show ?case by simp
next
  case (Cons d ds)
  then show ?case by (cases "is_terminator d") auto
qed

lemma has_sentence_end_Cons: "\<not> has_sentence_end (c # cs) \<Longrightarrow> \<not> has_sentence_end cs"
  by (cases cs) auto

lemma split_sentences_from_plain:
  "\<not> has_sentence_end t \<Longrightarrow> split_sentences_from cur t = [cur @ t]"
proof (induction t arbitrary: cur)
  case Nil
  then show ?case by simp
next
  case (Cons c cs)
  have "\<not> (is_terminator c \<and> dropWhile is_terminator cs \<noteq> [] \<and> is_space (hd (dropWhile is_terminator cs)))"
  proof
    assume a: "is_terminator c \<and> dropWhile is_terminator cs \<noteq> [] \<and> is_space (hd (dropWhile is_terminator cs))"
    then obtain x xs where "dropWhile is_terminator cs = x # xs" by (cases "dropWhile is_terminator cs") auto
    with a have "has_sentence_end (c # cs)" using terminator_run_sentence_end by fastforce
    with Cons.prems show False by simp
  qed
  moreover have "\<not> has_sentence_end cs" using Cons.prems has_sentence_end_Cons by blast
  ultimately show ?case using Cons.IH [of "cur @ [c]"] by (simp add: Let_def)
qed

lemma windows_length: "w \<in> set (windows s) \<Longrightarrow> length w \<le> chunkSize"
proof (induction s rule: windows.induct)
  case (1 s)
  then show ?case by (subst (asm) windows.simps) (auto split: if_splits)
qed

lemma length_trim_le: "length (trim s) \<le> length s"
  unfolding trim_def
  using length_dropWhile_le [of is_space "rev (dropWhile is_space s)"] length_dropWhile_le [of is_space s]
  by simp

lemma trim_rtrim: "trim s = rtrim (dropWhile is_space s)"
  by (simp add: trim_def rtrim_def)

lemma rtrim_Cons:
  "rtrim (c # s) = (if \<forall>x\<in>set s. is_space x then (if is_space c then [] else [c]) else c # rtrim s)"
  by (auto simp: rtrim_def dropWhile_append)

lemma rtrim_all_space: "\<forall>x\<in>set s. is_space x \<Longrightarrow> rtrim s = []"
  by (simp add: rtrim_def)

lemma rtrim_Cons_le: "length (rtrim s) \<le> length (rtrim (c # s))"
  by (simp add: rtrim_Cons rtrim_all_space)

lemma rtrim_dropWhile_le: "length (rtrim (dropWhile is_space s)) \<le> length (rtrim s)"
proof (induction s)
  case Nil
  then show ?case by simp
next
  case (Cons c s)
  then show ?case using rtrim_Cons_le [of s c] by auto
qed

lemma rtrim_dropWhile_commute: "dropWhile is_space (rtrim s) = rtrim (dropWhile is_space s)"
proof (induction s)
  case Nil
  then show ?case by (simp add: rtrim_def)
next
  case (Cons c s)
  show ?case
  proof (cases "is_space c")
    case True
    show ?thesis
    proof (cases "\<forall>x\<in>set s. is_space x")
      case all: True
      then have "rtrim (dropWhile is_space s) = []"
        by (intro rtrim_all_space) (auto dest: set_dropWhileD)
      then show ?thesis using True all by (simp add: rtrim_Cons)
    next
      case False
      with True Cons show ?thesis by (auto simp: rtrim_Cons)
    qed
  next
    case False
    then show ?thesis by (simp add: rtrim_Cons)
  qed
qed

lemma trim_Cons_le: "length (trim s) \<le> length (trim (c # s))"
proof (cases "is_space c")
  case True
  then show ?thesis by (simp add: trim_def)
next
  case False
  then have "trim (c # s) = rtrim (c # s)" by (simp add: trim_rtrim)
  moreover have "length (trim s) \<le> length (rtrim s)"
    using rtrim_dropWhile_le by (simp add: trim_rtrim)
  ultimately show ?thesis using rtrim_Cons_le [of s c] by simp
qed

lemma trim_rev: "trim (rev s) = rev (trim s)"
proof -
  have "trim (rev s) = rev (dropWhile is_space (rtrim s))"
    by (simp add: trim_def rtrim_def)
  also have "\<dots> = rev (rtrim (dropWhile is_space s))"
    by (simp add: rtrim_dropWhile_commute)
  finally show ?thesis by (simp add: trim_rtrim)
qed

lemma trim_snoc_le: "length (trim s) \<le> length (trim (s @ [c]))"
proof -
  have "length (trim (rev s)) \<le> length (trim (c # rev s))" by (rule trim_Cons_le)
  moreover have "trim (c # rev s) = rev (trim (s @ [c]))" using trim_rev [of "s @ [c]"] by simp
  ultimately show ?thesis by (simp add: trim_rev)
qed

lemma trim_drop_le: "length (trim (drop n s)) \<le> length (trim s)"
proof (induction s arbitrary: n)
  case Nil
  then show ?case by simp
next
  case (Cons c s)
  show ?case
  proof (cases n)
    case 0
    then show ?thesis by simp
  next
    case (Suc m)
    then show ?thesis using Cons [of m] trim_Cons_le [of s c] by simp
  qed
qed

lemma trim_take_le: "length (trim (take n s)) \<le> length (trim s)"
proof (induction s rule: rev_induct)
  case Nil
  then show ?case by simp
next
  case (snoc x xs)
  show ?case
  proof (cases "n \<le> length xs")
    case True
    then show ?thesis using snoc trim_snoc_le [of xs x] by simp
  next
    case False
    then show ?thesis by simp
  qed
qed

lemma trim_idem: "trim (trim s) = trim s"
proof -
  have "rtrim (rtrim t) = rtrim t" for t by (simp add: rtrim_def)
  moreover have "trim (trim s) = rtrim (rtrim (dropWhile is_space (dropWhile is_space s)))"
    by (simp add: trim_rtrim rtrim_dropWhile_commute)
  ultimately show ?thesis by (simp add: trim_rtrim)
qed

lemma windows_trim_le: "w \<in> set (windows s) \<Longrightarrow> length (trim w) \<le> length (trim s)"
proof (induction s rule: windows.induct)
  case (1 s)
  show ?case
  proof (cases "s = []")
    case True
    with "1.prems" show ?thesis by (simp add: windows.simps)
  next
    case False
    with "1.prems" have "w = take chunkSize s \<or> w \<in> set (windows (drop chunkSize s))"
      by (subst (asm) windows.simps) auto
    then show ?thesis
    proof
      assume "w = take chunkSize s"
      then show ?thesis by (simp add: trim_take_le)
    next
      assume "w \<in> set (windows (drop chunkSize s))"
      then have "length (trim w) \<le> length (trim (drop chunkSize s))" using "1.IH" False by simp
      then show ?thesis using trim_drop_le [of chunkSize s] by linarith
    qed
  qed
qed

lemma no_newline_no_blank_line: "\<forall>c\<in>set t. c \<noteq> newline \<Longrightarrow> \<not> has_blank_line t"
  by (induction t rule: has_blank_line.induct) auto

lemma no_terminator_no_sentence_end: "\<forall>c\<in>set t. \<not> is_terminator c \<Longrightarrow> \<not> has_sentence_end t"
  by (induction t rule: has_sentence_end.induct) auto

lemma trim_no_space: "\<forall>c\<in>set t. \<not> is_space c \<Longrightarrow> trim t = t"
proof -
  assume a: "\<forall>c\<in>set t. \<not> is_space c"
  then have "dropWhile is_space t = t" by (cases t) auto
  moreover have "dropWhile is_space (rev t) = rev t"
  proof (cases "rev t")
    case Nil
    then show ?thesis by simp
  next
    case (Cons x xs)
    then have "x \<in> set t" by (metis list.set_intros(1) set_rev)
    with a Cons show ?thesis by simp
  qed
  ultimately show ?thesis by (simp add: trim_def)
qed

lemma paragraphChunks_plain:
  "\<not> has_blank_line t \<Longrightarrow> paragraphChunks t = (if 20 < length (trim t) then [t] else [])"
  by (simp add: paragraphChunks_def split_paragraphs_def split_paragraphs_from_plain)

lemma sentenceChunks_plain:
  "\<not> has_sentence_end t \<Longrightarrow> sentenceChunks t = (if 20 < length (trim t) then [t] else [])"
  by (simp add: sentenceChunks_def split_sentences_def split_sentences_from_plain)

lemma fixedChunks_short: "length (trim t) \<le> 20 \<Longrightarrow> fixedChunks t = []"
proof -
  assume a: "length (trim t) \<le> 20"
  have "\<not> 20 < length (trim w)" if "w \<in> set (windows t)" for w
    using windows_trim_le [OF that] a by linarith
  then show ?thesis by (auto simp: fixedChunks_def filter_empty_conv)
qed

lemma fixedChunks_bound: "c \<in> set (fixedChunks t) \<Longrightarrow> length c \<le> chunkSize"
proof -
  assume "c \<in> set (fixedChunks t)"
  then obtain w where w: "w \<in> set (windows t)" and c: "c = trim w" by (auto simp: fixedChunks_def)
  from windows_length [OF w] length_trim_le [of w] c show ?thesis by simp
qed

lemma chunkText_plain:
  "\<not> has_blank_line t \<Longrightarrow> 20 < length (trim t) \<Longrightarrow> chunkText t = [t]"
  by (simp add: chunkText_def paragraphChunks_plain)

lemma chunkText_plain_short:
  "\<not> has_blank_line t \<Longrightarrow> \<not> has_sentence_end t \<Longrightarrow> length (trim t) \<le> 20 \<Longrightarrow> chunkText t = []"
  by (simp add: chunkText_def paragraphChunks_plain sentenceChunks_plain fixedChunks_short)

lemma has_blank_line_Cons: "\<not> has_blank_line (c # cs) \<Longrightarrow> \<not> has_blank_line cs"
  by (cases cs) auto

lemma split_paragraphs_from_separator:
  assumes "\<not> has_blank_line a" and "a = [] \<or> last a \<noteq> newline" and "2 \<le> n"
    and "b = [] \<or> hd b \<noteq> newline"
  shows "split_paragraphs_from cur (a @ replicate n newline @ b) =
           (cur @ a) # split_paragraphs_from [] b"
  using assms(1,2)
proof (induction a arbitrary: cur)
  case Nil
  from assms(3) obtain m where n: "n = Suc (Suc m)" by (metis Suc_le_D numeral_2_eq_2 Suc_le_mono)
  have "dropWhile (\<lambda>x. x = newline) (replicate (Suc m) newline @ b) = b"
    using assms(4) by (cases b) (auto simp: dropWhile_append)
  then show ?case unfolding n by simp
next
  case (Cons c a)
  have nb: "\<not> has_blank_line a" using Cons.prems(1) by (rule has_blank_line_Cons)
  have la: "a = [] \<or> last a \<noteq> newline" using Cons.prems(2) by auto
  have "\<not> (c = newline \<and> a @ replicate n newline @ b \<noteq> [] \<and> hd (a @ replicate n newline @ b) = newline)"
  proof (cases a)
    case Nil
    with Cons.prems(2) show ?thesis by simp
  next
    case (Cons d ds)
    with Cons.prems(1) show ?thesis by auto
  qed
  then show ?case using Cons.IH [OF nb la, of "cur @ [c]"] by simp
qed

lemma space_not_terminator: "is_space c \<Longrightarrow> \<not> is_terminator c"
  by (auto simp: is_space_def is_terminator_def)

lemma split_sentences_from_separator:
  assumes "\<not> has_sentence_end a" and "a = [] \<or> \<not> is_terminator (last a)"
    and "ts \<noteq> []" and "\<forall>c\<in>set ts. is_terminator c"
    and "ws \<noteq> []" and "\<forall>c\<in>set ws. is_space c"
    and "b = [] \<or> \<not> is_space (hd b)"
  shows "split_sentences_from cur (a @ ts @ ws @ b) = (cur @ a) # split_sentences_from [] b"
  using assms(1,2)
proof (induction a arbitrary: cur)
  case Nil
  from assms(3) obtain t ts' where ts: "ts = t # ts'" by (cases ts) auto
  from assms(5) obtain x ws' where ws: "ws = x # ws'" by (cases ws) auto
  from assms(6) ws have xs: "is_space x" by simp
  then have xt: "\<not> is_terminator x" by (rule space_not_terminator)
  note x = xs xt
  have d: "dropWhile is_terminator (ts' @ ws @ b) = ws @ b"
    using assms(4) ts ws x by (simp add: dropWhile_append)
  have e: "dropWhile is_space (ws @ b) = b"
    using assms(6,7) by (cases b) (auto simp: dropWhile_append)
  from assms(4) ts have "is_terminator t" by simp
  then show ?case using d e ws x by (simp add: ts Let_def)
next
  case (Cons c a)
  have nb: "\<not> has_sentence_end a" using Cons.prems(1) by (rule has_sentence_end_Cons)
  have la: "a = [] \<or> \<not> is_terminator (last a)" using Cons.prems(2) by auto
  have "\<not> (is_terminator c \<and> dropWhile is_terminator (a @ ts @ ws @ b) \<noteq> []
           \<and> is_space (hd (dropWhile is_terminator (a @ ts @ ws @ b))))"
  proof
    assume h: "is_terminator c \<and> dropWhile is_terminator (a @ ts @ ws @ b) \<noteq> []
           \<and> is_space (hd (dropWhile is_terminator (a @ ts @ ws @ b)))"
    with Cons.prems(2) have ane: "a \<noteq> []" by auto
    with Cons.prems(2) have "\<not> is_terminator (last a)" by simp
    with ane have "\<exists>y\<in>set a. \<not> is_terminator y" by (metis last_in_set)
    then have da: "dropWhile is_terminator (a @ ts @ ws @ b) = dropWhile is_terminator a @ ts @ ws @ b"
      and dne: "dropWhile is_terminator a \<noteq> []"
      by (auto simp: dropWhile_append dropWhile_eq_Nil_conv)
    from dne obtain y ys where y: "dropWhile is_terminator a = y # ys" by (cases "dropWhile is_terminator a") auto
    with h da have "is_space y" by simp
    with h y have "has_sentence_end (c # a)" by (auto intro: terminator_run_sentence_end)
    with Cons.prems(1) show False by simp
  qed
  then show ?case using Cons.IH [OF nb la, of "cur @ [c]"] by (simp add: Let_def)
qed

lemma windows_index:
  "windows s = map (\<lambda>i. take 500 (drop (i * 500) s)) [0..<(length s + 499) div 500]"
proof (induction s rule: windows.induct)
  case (1 s)
  show ?case
  proof (cases "s = []")
    case True
    then show ?thesis by (simp add: windows.simps)
  next
    case False
    then have l: "0 < length s" by simp
    have n: "(length s + 499) div 500 = Suc ((length (drop 500 s) + 499) div 500)"
    proof (cases "500 \<le> length s")
      case True
      then have "length s + 499 = (length s - 500 + 499) + 500" by simp
      then show ?thesis by (simp add: div_add_self2 del: add_diff_assoc add_diff_assoc2)
    next
      case False
      have "1 \<le> length s" using \<open>s \<noteq> []\<close> by (cases s) simp_all
      with False have "500 \<le> length s + 499" "length s + 499 < 2 * 500" by linarith+
      then have "(length s + 499) div 500 = 1"
        by (intro div_nat_eqI) simp_all
      with False show ?thesis by simp
    qed
    have "windows s = take 500 s # windows (drop 500 s)"
      using False by (subst windows.simps) (simp add: chunkSize_def)
    also have "windows (drop 500 s) =
        map (\<lambda>i. take 500 (drop (i * 500) (drop 500 s))) [0..<(length (drop 500 s) + 499) div 500]"
      using "1.IH" [OF False] by (simp add: chunkSize_def)
    also have "\<dots> = map (\<lambda>i. take 500 (drop (Suc i * 500) s)) [0..<(length (drop 500 s) + 499) div 500]"
      by (simp add: add.commute)
    finally show ?thesis
      unfolding n by (simp add: upt_conv_Cons map_Suc_upt [symmetric] del: upt_Suc drop_drop)
  qed
qed

lemma fixed_tier_dead_on_plain:
  "\<not> has_blank_line t \<Longrightarrow> paragraphChunks t = [] \<Longrightarrow> fixedChunks t = []"
  by (rule fixedChunks_short) (simp add: paragraphChunks_plain split: if_splits)

text \<open>
  C2. On a single run of 3000 letters, a text with no blank line and no sentence
  terminator followed by white space, the chunker returns one chunk, the whole run of 3000
  characters: the paragraph tier keeps the unsplit text as its only fragment, so the
  fixed-window tier, which would cut the run into six chunks of 500 characters, is not
  reached.
\<close>

theorem long_run_kept_whole:
  "\<not> has_blank_line (replicate 3000 (CHR ''a'')) \<and>
   \<not> has_sentence_end (replicate 3000 (CHR ''a'')) \<and>
   chunkText (replicate 3000 (CHR ''a'')) = [replicate 3000 (CHR ''a'')] \<and>
   length (replicate 3000 (CHR ''a'')) = 3000 \<and>
   map length (fixedChunks (replicate 3000 (CHR ''a''))) = [500, 500, 500, 500, 500, 500]"
proof -
  let ?r = "replicate 3000 (CHR ''a'')"
  have b: "\<not> has_blank_line ?r"
    by (rule no_newline_no_blank_line) (simp add: newline_def)
  have s: "\<not> has_sentence_end ?r"
    by (rule no_terminator_no_sentence_end) (simp add: is_terminator_def)
  have t: "trim (replicate k (CHR ''a'')) = replicate k (CHR ''a'')" for k
    by (rule trim_no_space) (simp add: is_space_def)
  have c: "chunkText ?r = [?r]"
    by (rule chunkText_plain [OF b]) (simp add: t)
  have u: "[0..<6] = [0, 1, 2, 3, 4, 5::nat]" by code_simp
  have "windows ?r = map (\<lambda>i. take 500 (drop (i * 500) ?r)) [0..<6]"
    by (subst windows_index) simp
  then have w: "windows ?r = map (\<lambda>i. replicate 500 (CHR ''a'')) [0, 1, 2, 3, 4, 5::nat]"
    unfolding u by simp
  have f: "fixedChunks ?r = map (\<lambda>i. replicate 500 (CHR ''a'')) [0, 1, 2, 3, 4, 5::nat]"
    unfolding fixedChunks_def w by (simp add: t)
  have l: "map length (fixedChunks ?r) = [500, 500, 500, 500, 500, 500]"
    unfolding f by simp
  from b s c l show ?thesis by simp
qed

lemma first_nonempty_tier3:
  "first_nonempty_tier [a, b, c] = (if a \<noteq> [] then a else if b \<noteq> [] then b else c)"
  by (cases c) (auto simp: first_nonempty_tier_def)

lemma fixedChunks_trimmed: "fixedChunks t = filter (\<lambda>f. 20 < length (trim f)) (map trim (windows t))"
  by (simp add: fixedChunks_def filter_map comp_def trim_idem)

text \<open>
  C3. The chunker returns the fragments of exactly one tier: the first of paragraph
  split, sentence split and fixed windows that keeps at least one fragment, where every
  tier keeps the fragments whose trimmed length exceeds 20; every chunk returned has a
  trimmed length above 20. The paragraph split leaves a text without a blank line whole
  and cuts at each run of two or more newlines, which it drops; the sentence split leaves a
  text without sentence end whole and cuts at each run of terminators followed by white
  space, which it drops; the windows are the successive pieces of 500 characters of the
  text.
\<close>

theorem chunk_single_tier:
  "chunkText document = chunk_spec document
   \<and> (\<forall>c \<in> set (chunkText document). 20 < length (trim c))
   \<and> (\<not> has_blank_line t \<longrightarrow> split_paragraphs t = [t])
   \<and> (\<not> has_blank_line a \<and> (a = [] \<or> last a \<noteq> newline) \<and> 2 \<le> n \<and> (b = [] \<or> hd b \<noteq> newline)
        \<longrightarrow> split_paragraphs (a @ replicate n newline @ b) = a # split_paragraphs b)
   \<and> (\<not> has_sentence_end u \<longrightarrow> split_sentences u = [u])
   \<and> (\<not> has_sentence_end p \<and> (p = [] \<or> \<not> is_terminator (last p))
        \<and> ts \<noteq> [] \<and> (\<forall>c\<in>set ts. is_terminator c)
        \<and> ws \<noteq> [] \<and> (\<forall>c\<in>set ws. is_space c) \<and> (q = [] \<or> \<not> is_space (hd q))
        \<longrightarrow> split_sentences (p @ ts @ ws @ q) = p # split_sentences q)
   \<and> windows s = map (\<lambda>i. take 500 (drop (i * 500) s)) [0..<(length s + 499) div 500]"
proof -
  have "chunkText document = chunk_spec document"
    by (simp add: chunkText_def chunk_spec_def first_nonempty_tier3 paragraphChunks_def
        sentenceChunks_def fixedChunks_trimmed)
  moreover have "\<forall>c \<in> set (chunkText document). 20 < length (trim c)"
    by (auto simp: chunkText_def paragraphChunks_def sentenceChunks_def fixedChunks_trimmed)
  moreover have "split_paragraphs t = [t]" if "\<not> has_blank_line t"
    using that by (simp add: split_paragraphs_def split_paragraphs_from_plain)
  moreover have "split_paragraphs (a @ replicate n newline @ b) = a # split_paragraphs b"
    if "\<not> has_blank_line a \<and> (a = [] \<or> last a \<noteq> newline) \<and> 2 \<le> n \<and> (b = [] \<or> hd b \<noteq> newline)"
    using that split_paragraphs_from_separator [of a n b "[]"] by (simp add: split_paragraphs_def)
  moreover have "split_sentences u = [u]" if "\<not> has_sentence_end u"
    using that by (simp add: split_sentences_def split_sentences_from_plain)
  moreover have "split_sentences (p @ ts @ ws @ q) = p # split_sentences q"
    if "\<not> has_sentence_end p \<and> (p = [] \<or> \<not> is_terminator (last p))
        \<and> ts \<noteq> [] \<and> (\<forall>c\<in>set ts. is_terminator c)
        \<and> ws \<noteq> [] \<and> (\<forall>c\<in>set ws. is_space c) \<and> (q = [] \<or> \<not> is_space (hd q))"
    using that split_sentences_from_separator [of p ts ws q "[]"] by (simp add: split_sentences_def)
  moreover note windows_index [of s]
  ultimately show ?thesis by blast
qed

theorem chunk_single_tier_witness:
  "split_paragraphs (''The first paragraph of the text.'' @ replicate 3 newline @ ''tiny''
      @ replicate 2 newline @ ''The second paragraph, a bit longer.'') =
     [''The first paragraph of the text.'', ''tiny'', ''The second paragraph, a bit longer.'']
   \<and> chunkText (''The first paragraph of the text.'' @ replicate 3 newline @ ''tiny''
      @ replicate 2 newline @ ''The second paragraph, a bit longer.'') =
     [''The first paragraph of the text.'', ''The second paragraph, a bit longer.'']
   \<and> split_sentences ((''aaaa bbbb cccc'' @ replicate 2 newline @ ''dddd eeee ffff'') @ ''.'' @ '' '' @ ''gggg'') =
     [''aaaa bbbb cccc'' @ replicate 2 newline @ ''dddd eeee ffff'', ''gggg'']
   \<and> chunkText ((''aaaa bbbb cccc'' @ replicate 2 newline @ ''dddd eeee ffff'') @ ''.'' @ '' '' @ ''gggg'') =
     [''aaaa bbbb cccc'' @ replicate 2 newline @ ''dddd eeee ffff'']
   \<and> windows (concat (replicate 60 ''ab cd. ef\<newline>\<newline>'')) =
     [take 500 (concat (replicate 60 ''ab cd. ef\<newline>\<newline>'')),
      drop 500 (concat (replicate 60 ''ab cd. ef\<newline>\<newline>''))]
   \<and> chunkText (concat (replicate 60 ''ab cd. ef\<newline>\<newline>'')) =
     [take 500 (concat (replicate 60 ''ab cd. ef\<newline>\<newline>'')),
      take 158 (drop 500 (concat (replicate 60 ''ab cd. ef\<newline>\<newline>'')))]
   \<and> 20 < length (trim (take 500 (concat (replicate 60 ''ab cd. ef\<newline>\<newline>''))))
   \<and> 20 < length (trim (take 158 (drop 500 (concat (replicate 60 ''ab cd. ef\<newline>\<newline>'')))))"
proof -
  let ?P1 = "''The first paragraph of the text.''"
  let ?P2 = "''The second paragraph, a bit longer.''"
  let ?B = "''tiny'' @ replicate 2 newline @ ?P2"
  let ?S1 = "''aaaa bbbb cccc'' @ replicate 2 newline @ ''dddd eeee ffff''"
  let ?T3 = "concat (replicate 60 ''ab cd. ef\<newline>\<newline>'')"
  have h1: "\<not> has_blank_line ?P1 \<and> (?P1 = [] \<or> last ?P1 \<noteq> newline) \<and> 2 \<le> (3::nat)
      \<and> (?B = [] \<or> hd ?B \<noteq> newline)"
    by code_simp
  have h2: "\<not> has_blank_line ''tiny'' \<and> (''tiny'' = [] \<or> last ''tiny'' \<noteq> newline) \<and> 2 \<le> (2::nat)
      \<and> (?P2 = [] \<or> hd ?P2 \<noteq> newline)"
    by code_simp
  have h3: "\<not> has_blank_line ?P2" by code_simp
  have h4: "\<not> has_sentence_end ''gggg''" by code_simp
  have h5: "\<not> has_sentence_end ?S1 \<and> (?S1 = [] \<or> \<not> is_terminator (last ?S1))
        \<and> ''.'' \<noteq> [] \<and> (\<forall>c\<in>set ''.''. is_terminator c)
        \<and> '' '' \<noteq> [] \<and> (\<forall>c\<in>set '' ''. is_space c) \<and> (''gggg'' = [] \<or> \<not> is_space (hd ''gggg''))"
    by code_simp
  note first = chunk_single_tier [of ?T3 ?P2 ?P1 3 ?B "''gggg''" ?S1 "''.''" "'' ''" "''gggg''" ?T3]
  note second = chunk_single_tier [of ?T3 ?P2 "''tiny''" 2 ?P2 "''gggg''" ?S1 "''.''" "'' ''" "''gggg''" ?T3]
  from first h1 have "split_paragraphs (?P1 @ replicate 3 newline @ ?B) = ?P1 # split_paragraphs ?B"
    by blast
  moreover from second h2 have "split_paragraphs ?B = ''tiny'' # split_paragraphs ?P2"
    by blast
  moreover from first h3 have "split_paragraphs ?P2 = [?P2]" by blast
  ultimately have e1: "split_paragraphs (?P1 @ replicate 3 newline @ ?B) = [?P1, ''tiny'', ?P2]"
    by simp
  from first h5 have "split_sentences (?S1 @ ''.'' @ '' '' @ ''gggg'') = ?S1 # split_sentences ''gggg''"
    by blast
  moreover from first h4 have "split_sentences ''gggg'' = [''gggg'']" by blast
  ultimately have e2: "split_sentences (?S1 @ ''.'' @ '' '' @ ''gggg'') = [?S1, ''gggg'']"
    by simp
  from first have w: "windows ?T3 =
      map (\<lambda>i. take 500 (drop (i * 500) ?T3)) [0..<(length ?T3 + 499) div 500]"
    by blast
  have n: "[0..<(length ?T3 + 499) div 500] = [0, 1]" by code_simp
  have d: "take 500 (drop 500 ?T3) = drop 500 ?T3" by code_simp
  have e3: "windows ?T3 = [take 500 ?T3, drop 500 ?T3]"
    unfolding w n using d by simp
  have c1: "chunkText (?P1 @ replicate 3 newline @ ?B) = [?P1, ?P2]" by code_simp
  have c2: "chunkText (?S1 @ ''.'' @ '' '' @ ''gggg'') = [?S1]" by code_simp
  have c3: "chunkText ?T3 = [take 500 ?T3, take 158 (drop 500 ?T3)]" by code_simp
  from first have k: "\<forall>c \<in> set (chunkText ?T3). 20 < length (trim c)" by blast
  from k have k3: "20 < length (trim (take 500 ?T3))
      \<and> 20 < length (trim (take 158 (drop 500 ?T3)))"
    unfolding c3 by simp
  from e1 c1 e2 c2 e3 c3 k3 show ?thesis by blast
qed

section \<open>Properties of the ingestion orchestrator\<close>

lemma append_state_empty [simp]: "append_state st empty_state = st"
  by (simp add: append_state_def empty_state_def)

lemma append_state_empty_left [simp]: "append_state empty_state d = d"
  by (simp add: append_state_def empty_state_def)

lemma append_state_assoc: "append_state (append_state a b) c = append_state a (append_state b c)"
  by (simp add: append_state_def)

lemma processFile_state_indep:
  "processFile sv fid fname mime st w =
     (case processFile sv fid fname mime empty_state w of
        (Inl e, w') \<Rightarrow> (Inl e, w')
      | (Inr d, w') \<Rightarrow> (Inr (append_state st d), w'))"
  by (simp add: processFile_def append_state_def empty_state_def Let_def
           split: prod.splits sum.splits)

lemma syncLoop_state_indep:
  "syncLoop sv files st w =
     (case syncLoop sv files empty_state w of (d, w') \<Rightarrow> (append_state st d, w'))"
proof (induction files arbitrary: st w)
  case Nil
  then show ?case by simp
next
  case (Cons f0 files)
  show ?case
  proof (cases "has_id_and_name f0")
    case False
    then have "syncLoop sv (f0 # files) s w = syncLoop sv files s w" for s
      by (auto simp: has_id_and_name_def truthy_def split: option.splits)
    then show ?thesis using Cons.IH [of st w] by simp
  next
    case True
    then obtain fid fname where f: "df_id f0 = Some fid" "df_name f0 = Some fname"
      "fid \<noteq> []" "fname \<noteq> []"
      by (auto simp: has_id_and_name_def truthy_def split: option.splits)
    obtain r w1 where p0: "processFile sv fid fname (df_mimeType f0) empty_state w = (r, w1)"
      by (cases "processFile sv fid fname (df_mimeType f0) empty_state w")
    show ?thesis
    proof (cases r)
      case (Inl e)
      with p0 have p: "processFile sv fid fname (df_mimeType f0) st w = (Inl e, w1)"
        by (subst processFile_state_indep) simp
      let ?d = "\<lparr>processedFiles = [\<lparr>re_name = fname, re_chunks = 0, re_error = Some (errorMessage e)\<rparr>],
                 totalChunks = 0, failedFileDetails = [(fname, errorMessage e)]\<rparr>"
      obtain dd w2 where l: "syncLoop sv files empty_state w1 = (dd, w2)"
        by (cases "syncLoop sv files empty_state w1")
      have "st\<lparr>failedFileDetails := failedFileDetails st @ [(fname, errorMessage e)],
               processedFiles := processedFiles st @
                 [\<lparr>re_name = fname, re_chunks = 0, re_error = Some (errorMessage e)\<rparr>]\<rparr>
            = append_state st ?d"
        by (cases st) (simp add: append_state_def)
      then have a: "syncLoop sv (f0 # files) st w = syncLoop sv files (append_state st ?d) w1"
        using f p by simp
      have b: "syncLoop sv (f0 # files) empty_state w = syncLoop sv files ?d w1"
        using f p0 Inl by (simp add: empty_state_def)
      show ?thesis
        unfolding a b
        using Cons.IH [of "append_state st ?d" w1] Cons.IH [of ?d w1] l
        by (simp add: append_state_assoc)
    next
      case (Inr d)
      with p0 have p: "processFile sv fid fname (df_mimeType f0) st w = (Inr (append_state st d), w1)"
        by (subst processFile_state_indep) simp
      obtain dd w2 where l: "syncLoop sv files empty_state w1 = (dd, w2)"
        by (cases "syncLoop sv files empty_state w1")
      have a: "syncLoop sv (f0 # files) st w = syncLoop sv files (append_state st d) w1"
        using f p by simp
      have b: "syncLoop sv (f0 # files) empty_state w = syncLoop sv files d w1"
        using f p0 Inr by simp
      show ?thesis
        unfolding a b
        using Cons.IH [of "append_state st d" w1] Cons.IH [of d w1] l
        by (simp add: append_state_assoc)
    qed
  qed
qed



lemma embedChunks_ids:
  "embedChunks sv fid fname mime chunks i vectors w = (Inr vs, w') \<Longrightarrow>
   map vec_id vs = map vec_id vectors @ map (\<lambda>k. fid @ ''-chunk-'' @ dec k) [i..<i + length chunks]
   \<and> map (md_chunkIndex \<circ> vec_metadata) vs =
       map (md_chunkIndex \<circ> vec_metadata) vectors @ map (\<lambda>k. Some (int k)) [i..<i + length chunks]
   \<and> map (md_text \<circ> vec_metadata) vs = map (md_text \<circ> vec_metadata) vectors @ map Some chunks
   \<and> map (md_fileId \<circ> vec_metadata) vs = map (md_fileId \<circ> vec_metadata) vectors @ map (\<lambda>c. Some fid) chunks"
proof (induction chunks arbitrary: i vectors w)
  case Nil
  then show ?case by simp
next
  case (Cons chunk rest)
  from Cons.prems obtain embedding w1 where
    g: "getEmbedding sv chunk w = (Inr embedding, w1)"
    by (auto split: prod.splits sum.splits)
  have "[i..<i + length (chunk # rest)] = i # [Suc i..<Suc i + length rest]"
    by (subst upt_rec) simp
  with Cons.prems g Cons.IH [of "Suc i" _ w1] show ?case by auto
qed

lemma dec_nonempty: "dec n \<noteq> []"
  by (subst dec.simps) simp

lemma digit_inj: "a < 10 \<Longrightarrow> b < 10 \<Longrightarrow> digit a = digit b \<Longrightarrow> a = b"
proof -
  assume a: "a < 10" and b: "b < 10" and e: "digit a = digit b"
  have "distinct ''0123456789''" by simp
  moreover have "a < length ''0123456789''" "b < length ''0123456789''" using a b by simp_all
  ultimately show "a = b" using e unfolding digit_def by (simp only: nth_eq_iff_index_eq)
qed

lemma dec_inj: "dec n = dec m \<Longrightarrow> n = m"
proof (induction n arbitrary: m rule: dec.induct)
  case (1 n)
  show ?case
  proof (cases "n < 10")
    case n: True
    show ?thesis
    proof (cases "m < 10")
      case True
      with n "1.prems" show ?thesis by (simp add: dec.simps [of n] dec.simps [of m] digit_inj)
    next
      case False
      with n "1.prems" dec_nonempty [of "m div 10"] show ?thesis
        by (simp add: dec.simps [of n] dec.simps [of m] Cons_eq_append_conv)
    qed
  next
    case n: False
    show ?thesis
    proof (cases "m < 10")
      case True
      with n "1.prems" dec_nonempty [of "n div 10"] show ?thesis
        by (simp add: dec.simps [of n] dec.simps [of m] append_eq_Cons_conv)
    next
      case False
      with n "1.prems" have d: "dec (n div 10) = dec (m div 10)"
        and r: "digit (n mod 10) = digit (m mod 10)"
        by (simp_all add: dec.simps [of n] dec.simps [of m])
      from "1.IH" [OF n d] have "n div 10 = m div 10" .
      moreover from r have "n mod 10 = m mod 10" by (intro digit_inj) simp_all
      ultimately show ?thesis by (metis div_mult_mod_eq)
    qed
  qed
qed

lemma chunk_ids_distinct: "distinct (map (\<lambda>k. fid @ ''-chunk-'' @ dec k) [0..<n])"
  by (auto simp: distinct_map inj_on_def dest: dec_inj)


lemma embedChunks_Inl_cases:
  "embedChunks sv fid fname mime chunks i vs w = (Inl e, w') \<Longrightarrow>
   \<exists>embedded chunk rest w1. chunks = embedded @ chunk # rest \<and> embedsAll sv embedded w w1
      \<and> getEmbedding sv chunk w1 = (Inl e, w')"
proof (induction chunks arbitrary: i vs w)
  case Nil
  then show ?case by simp
next
  case (Cons c cs)
  obtain r w1 where g: "getEmbedding sv c w = (r, w1)" by (cases "getEmbedding sv c w")
  show ?case
  proof (cases r)
    case (Inl x)
    with g Cons.prems have "x = e" "w1 = w'" by simp_all
    with g Inl have "c # cs = [] @ c # cs \<and> embedsAll sv [] w w \<and> getEmbedding sv c w = (Inl e, w')"
      by (simp add: embedsAll.none)
    then show ?thesis by blast
  next
    case (Inr emb)
    with g Cons.prems obtain vs' where "embedChunks sv fid fname mime cs (i + 1) vs' w1 = (Inl e, w')"
      by auto
    from Cons.IH [OF this] obtain embedded chunk rest w2 where
      d: "cs = embedded @ chunk # rest" and a: "embedsAll sv embedded w1 w2"
      and t: "getEmbedding sv chunk w2 = (Inl e, w')" by blast
    from g Inr a have "embedsAll sv (c # embedded) w w2" by (auto intro: embedsAll.more)
    with d t have "c # cs = (c # embedded) @ chunk # rest \<and> embedsAll sv (c # embedded) w w2
        \<and> getEmbedding sv chunk w2 = (Inl e, w')" by simp
    then show ?thesis by blast
  qed
qed


lemma processFile_fileThrows:
  assumes "processFile sv fid fname mime st w = (Inl e, w')"
  shows "fileThrows sv fid fname mime w e w'"
proof -
  obtain r1 w1 where g: "getFileContent sv fid (or_else mime ''text/plain'') w = (r1, w1)"
    by (cases "getFileContent sv fid (or_else mime ''text/plain'') w")
  show ?thesis
  proof (cases r1)
    case (Inl x)
    with g assms show ?thesis by (auto simp: processFile_def intro: fileThrows.download)
  next
    case (Inr buffer)
    note b = this
    with g assms have bne: "buffer \<noteq> []" by (auto simp: processFile_def)
    obtain r2 w2 where x: "extractTextFromDocument sv buffer (or_else mime ''text/plain'') w1 = (r2, w2)"
      by (cases "extractTextFromDocument sv buffer (or_else mime ''text/plain'') w1")
    show ?thesis
    proof (cases r2)
      case (Inl y)
      with g b bne x assms show ?thesis by (auto simp: processFile_def intro: fileThrows.extraction)
    next
      case (Inr extracted)
      note t = this
      with g b bne x assms have tne: "trim extracted \<noteq> []" and cne: "chunkText extracted \<noteq> []"
        by (auto simp: processFile_def Let_def split: if_splits)
      then have ene: "extracted \<noteq> []" by (auto simp: trim_def)
      obtain r3 w3 where m: "embedChunks sv fid fname mime (chunkText extracted) 0 [] w2 = (r3, w3)"
        by (cases "embedChunks sv fid fname mime (chunkText extracted) 0 [] w2")
      show ?thesis
      proof (cases r3)
        case (Inl z)
        with g b bne x t tne cne ene m assms have "z = e" "w3 = w'"
          by (simp_all add: processFile_def Let_def)
        with m Inl have "embedChunks sv fid fname mime (chunkText extracted) 0 [] w2 = (Inl e, w')" by simp
        from embedChunks_Inl_cases [OF this] obtain embedded chunk rest wk where
          "chunkText extracted = embedded @ chunk # rest" "embedsAll sv embedded w2 wk"
          "getEmbedding sv chunk wk = (Inl e, w')" by blast
        with g b bne x t tne show ?thesis by (auto intro: fileThrows.embedding)
      next
        case (Inr vectors)
        with g b bne x t tne cne ene m assms have "upsertToPinecone sv vectors w3 = (Inl e, w')"
          by (auto simp: processFile_def Let_def split: prod.splits sum.splits)
        with g b bne x t tne cne m Inr show ?thesis by (auto intro: fileThrows.upsert)
      qed
    qed
  qed
qed



text \<open>
  C5. The vectors built for a file have the ids \<open>fileId-chunk-0\<close>, \<open>fileId-chunk-1\<close>, ... in
  chunk order, with \<open>chunkIndex\<close> metadata \<open>0, 1, ...\<close>, and these ids are pairwise distinct.
  A second run for the same file id and the same chunks, whatever the services return
  then, builds the same ids, so the ids of both runs together are as many as the chunks.
\<close>

theorem chunk_ids_deterministic:
  assumes "embedChunks sv fid fname mime chunks 0 [] w = (Inr vs, w1)"
    and "embedChunks sv' fid fname' mime' chunks 0 [] w' = (Inr vs', w1')"
  shows "map vec_id vs = map (\<lambda>i. fid @ ''-chunk-'' @ dec i) [0..<length chunks]
       \<and> map (md_chunkIndex \<circ> vec_metadata) vs = map (\<lambda>i. Some (int i)) [0..<length chunks]
       \<and> distinct (map vec_id vs)
       \<and> map vec_id vs' = map vec_id vs
       \<and> card (set (map vec_id vs) \<union> set (map vec_id vs')) = length chunks"
proof -
  have a: "map vec_id vs = map (\<lambda>i. fid @ ''-chunk-'' @ dec i) [0..<length chunks]"
    and i: "map (md_chunkIndex \<circ> vec_metadata) vs = map (\<lambda>i. Some (int i)) [0..<length chunks]"
    using embedChunks_ids [OF assms(1)] by simp_all
  have b: "map vec_id vs' = map (\<lambda>i. fid @ ''-chunk-'' @ dec i) [0..<length chunks]"
    using embedChunks_ids [OF assms(2)] by simp
  have d: "distinct (map vec_id vs)"
    unfolding a by (rule chunk_ids_distinct)
  have "card (set (map vec_id vs) \<union> set (map vec_id vs')) = card (set (map vec_id vs))"
    using a b by simp
  also have "\<dots> = length (map vec_id vs)"
    using d by (rule distinct_card)
  also have "\<dots> = length chunks"
    unfolding a by simp
  finally show ?thesis using a b d i by simp
qed

theorem chunk_ids_deterministic_witness:
  "map vec_id (case fst (embedChunks demo_services ''f1'' ''one.txt'' None [''alpha'', ''beta''] 0 [] ())
               of Inr vs \<Rightarrow> vs | Inl e \<Rightarrow> [])
     = [''f1-chunk-0'', ''f1-chunk-1'']"
proof -
  obtain vs where
    e: "embedChunks demo_services ''f1'' ''one.txt'' None [''alpha'', ''beta''] 0 [] () = (Inr vs, ())"
    by (simp add: demo_services_def)
  have "[0..<length [''alpha'', ''beta'']] = [0, Suc 0]"
    by (simp add: upt_rec)
  with chunk_ids_deterministic [OF e e] e show ?thesis
    by (simp add: dec.simps digit_def)
qed

lemma syncLoop_names:
  "syncLoop sv files empty_state w = (st, w') \<Longrightarrow>
   map re_name (processedFiles st) = map (\<lambda>f. or_else (df_name f) []) (filter has_id_and_name files)
   \<and> set (map fst (failedFileDetails st))
       \<subseteq> set (map (\<lambda>f. or_else (df_name f) []) (filter has_id_and_name files))"
proof (induction files arbitrary: st w w')
  case Nil
  then show ?case by (auto simp: empty_state_def)
next
  case (Cons f0 files)
  show ?case
  proof (cases "has_id_and_name f0")
    case False
    then have "syncLoop sv (f0 # files) empty_state w = syncLoop sv files empty_state w"
      by (auto simp: has_id_and_name_def truthy_def split: option.splits)
    with Cons.prems have "syncLoop sv files empty_state w = (st, w')" by simp
    from Cons.IH [OF this] False show ?thesis by simp
  next
    case True
    then obtain fid fname where f: "df_id f0 = Some fid" "df_name f0 = Some fname"
      "fid \<noteq> []" "fname \<noteq> []"
      by (auto simp: has_id_and_name_def truthy_def split: option.splits)
    obtain r w1 where p: "processFile sv fid fname (df_mimeType f0) empty_state w = (r, w1)"
      by (cases "processFile sv fid fname (df_mimeType f0) empty_state w")
    obtain d w2 where l: "syncLoop sv files empty_state w1 = (d, w2)"
      by (cases "syncLoop sv files empty_state w1")
    note ih = Cons.IH [OF l]
    have n: "or_else (df_name f0) [] = fname" using f by (simp add: or_else_def)
    show ?thesis
    proof (cases r)
      case (Inl e)
      let ?entry = "\<lparr>processedFiles = [\<lparr>re_name = fname, re_chunks = 0, re_error = Some (errorMessage e)\<rparr>],
                 totalChunks = 0, failedFileDetails = [(fname, errorMessage e)]\<rparr>"
      have "syncLoop sv (f0 # files) empty_state w = syncLoop sv files ?entry w1"
        using f p Inl by (simp add: empty_state_def)
      also have "\<dots> = (append_state ?entry d, w2)"
        using l by (subst syncLoop_state_indep) simp
      finally have "st = append_state ?entry d" using Cons.prems by simp
      with ih True n show ?thesis by (auto simp: append_state_def)
    next
      case (Inr s)
      have "\<exists>entry. re_name entry = fname \<and> processedFiles s = [entry] \<and> failedFileDetails s = []"
        using p Inr
        by (auto simp: processFile_def empty_state_def Let_def split: prod.splits sum.splits if_splits)
      then obtain entry where s: "re_name entry = fname" "processedFiles s = [entry]"
        "failedFileDetails s = []" by blast
      have "syncLoop sv (f0 # files) empty_state w = syncLoop sv files s w1"
        using f p Inr by simp
      also have "\<dots> = (append_state s d, w2)"
        using l by (subst syncLoop_state_indep) simp
      finally have "st = append_state s d" using Cons.prems by simp
      with ih True n s show ?thesis by (auto simp: append_state_def)
    qed
  qed
qed

lemma filter_has_id_and_name_less: "\<exists>f \<in> set files. \<not> has_id_and_name f \<Longrightarrow> length (filter has_id_and_name files) < length files"
  by (auto intro: length_filter_less)

lemma syncPOST_listing:
  assumes "or_opt folderIdParam envFolderId = Some folderId" and "folderId \<noteq> []"
    and "listFilesInFolder sv folderId w = (Inr files, w1)"
    and "files \<noteq> []"
    and "syncLoop sv files empty_state w1 = (st, w2)"
  shows "syncPOST sv folderIdParam envFolderId w =
          (SyncOk \<lparr>sr_totalFiles = length (processedFiles st),
                   sr_totalChunks = totalChunks st,
                   sr_processedFiles = processedFiles st,
                   sr_failedFileDetails =
                     (if length (failedFileDetails st) > 0
                      then Some (failedFileDetails st) else None)\<rparr>, w2)"
proof -
  from assms(5) have "syncLoop sv files \<lparr>processedFiles = [], totalChunks = 0, failedFileDetails = []\<rparr> w1 = (st, w2)"
    by (simp only: empty_state_def)
  with assms(1-4) show ?thesis
    unfolding syncPOST_def by simp
qed


text \<open>
  C10. The response of the sync handler, when the folder listing is delivered, has one
  entry in \<open>processedFiles\<close> for each listed file that has both an id and a name, in
  listing order and under that file's name, and \<open>failedFileDetails\<close> names such files only;
  a file without id or name has no entry. \<open>totalFiles\<close> is the length of \<open>processedFiles\<close>,
  hence smaller than the listing as soon as one listed file lacks its id or its name.
\<close>

theorem skipped_files_unreported:
  assumes "or_opt folderIdParam envFolderId = Some folderId" and "folderId \<noteq> []"
    and "listFilesInFolder sv folderId w = (Inr files, w1)"
  shows "case syncPOST sv folderIdParam envFolderId w of
           (SyncOk r, w') \<Rightarrow>
             map re_name (sr_processedFiles r) =
               map (\<lambda>f. or_else (df_name f) []) (filter has_id_and_name files)
             \<and> (case sr_failedFileDetails r of
                  None \<Rightarrow> True
                | Some failed \<Rightarrow>
                    set (map fst failed) \<subseteq>
                    set (map (\<lambda>f. or_else (df_name f) []) (filter has_id_and_name files)))
             \<and> sr_totalFiles r = length (sr_processedFiles r)
             \<and> sr_totalFiles r = length (filter has_id_and_name files)
             \<and> ((\<exists>f \<in> set files. \<not> has_id_and_name f) \<longrightarrow> sr_totalFiles r < length files)
         | _ \<Rightarrow> False"
proof (cases "files = []")
  case True
  with assms show ?thesis by (simp add: syncPOST_def)
next
  case False
  obtain st w2 where l: "syncLoop sv files empty_state w1 = (st, w2)"
    by (cases "syncLoop sv files empty_state w1")
  from syncLoop_names [OF l]
  have n: "map re_name (processedFiles st) =
             map (\<lambda>f. or_else (df_name f) []) (filter has_id_and_name files)"
    and s: "set (map fst (failedFileDetails st)) \<subseteq>
             set (map (\<lambda>f. or_else (df_name f) []) (filter has_id_and_name files))"
    by simp_all
  from n have len: "length (processedFiles st) = length (filter has_id_and_name files)"
    by (rule map_eq_imp_length_eq)
  have strict: "length (processedFiles st) < length files"
    if "\<exists>f \<in> set files. \<not> has_id_and_name f"
    using that filter_has_id_and_name_less len by simp
  show ?thesis
    unfolding syncPOST_listing [OF assms False l]
    using n s len strict by (simp del: set_map)
qed

theorem skipped_files_unreported_witness:
  "case syncPOST demo_services (Some ''folder'') None () of
     (SyncOk r, w') \<Rightarrow>
       map re_name (sr_processedFiles r) = [''one.txt'', ''two.pdf'', ''three.txt'']
       \<and> sr_totalFiles r = 3 \<and> length demo_files = 4
   | _ \<Rightarrow> False"
proof -
  have h1: "or_opt (Some ''folder'') None = Some ''folder''"
    by (simp add: or_opt_def truthy_def)
  have h2: "''folder'' \<noteq> []" by simp
  have h3: "listFilesInFolder demo_services ''folder'' () = (Inr demo_files, ())"
    by (simp add: demo_services_def)
  have v: "filter has_id_and_name demo_files = take 3 demo_files"
    by (simp add: demo_files_def has_id_and_name_def truthy_def)
  have n: "map (\<lambda>f. or_else (df_name f) []) (take 3 demo_files) = [''one.txt'', ''two.pdf'', ''three.txt'']"
    by (simp add: demo_files_def or_else_def)
  have l: "length demo_files = 4" by (simp add: demo_files_def)
  from skipped_files_unreported [OF h1 h2 h3] show ?thesis
    unfolding v n l by (auto split: prod.splits sync_response.splits)
qed

section \<open>Properties of the preview route\<close>











section \<open>Properties of the vector store client\<close>

text \<open>
  C8 (as amended). Without a cached client, construction throws exactly when the API key
  or the environment name (\<open>PINECONE_ENVIRONMENT\<close>) is missing or empty, it then caches
  nothing, and query and upsert fail with that error before any call to the index. The
  index name takes no part in the check: when it is missing, query and upsert use the
  index \<open>adacompliance-index\<close>. Once a client is cached, every later call returns it
  whatever the environment holds by then, and query and upsert go straight to the index.
\<close>

theorem client_config_check:
  "(getPineconeClient env None =
      (Inl (Error ''Pinecone API key and environment must be set''), None))
     = (\<not> truthy (PINECONE_API_KEY env) \<or> \<not> truthy (PINECONE_ENVIRONMENT env))
   \<and> (truthy (PINECONE_API_KEY env) \<and> truthy (PINECONE_ENVIRONMENT env) \<longrightarrow>
        getPineconeClient env None =
          (Inr \<lparr>pc_apiKey = or_else (PINECONE_API_KEY env) []\<rparr>,
           Some \<lparr>pc_apiKey = or_else (PINECONE_API_KEY env) []\<rparr>))
   \<and> (\<not> truthy (PINECONE_API_KEY env) \<or> \<not> truthy (PINECONE_ENVIRONMENT env) \<longrightarrow>
        queryPineconeImpl env sdk queryVector topK namespace None w =
          ((Inl (Error ''Pinecone API key and environment must be set''), w), None)
        \<and> upsertToPineconeImpl env sdk vectors namespace None w =
          ((Inl (Error ''Pinecone API key and environment must be set''), w), None))
   \<and> getPineconeClient env' (Some client) = (Inr client, Some client)
   \<and> queryPineconeImpl env' sdk queryVector topK namespace (Some client) w =
       (case index_query sdk client (or_else (PINECONE_INDEX_NAME env') ''adacompliance-index'')
               (if truthy namespace then namespace else None) queryVector
               (case topK of None \<Rightarrow> 5 | Some k \<Rightarrow> k) w of
          (Inl e, w') \<Rightarrow> ((Inl e, w'), Some client)
        | (Inr matches, w') \<Rightarrow>
            ((Inr (case matches of None \<Rightarrow> [] | Some ms \<Rightarrow> ms), w'), Some client))
   \<and> upsertToPineconeImpl env' sdk vectors namespace (Some client) w =
       (case index_upsert sdk client (or_else (PINECONE_INDEX_NAME env') ''adacompliance-index'')
               (if truthy namespace then namespace else None) vectors w of
          (Inl error, w') \<Rightarrow>
            ((Inl (Error (''Failed to upsert to Pinecone: '' @ errorMessage error)), w'), Some client)
        | (Inr result, w') \<Rightarrow> ((Inr result, w'), Some client))"
  by (simp add: getPineconeClient_def queryPineconeImpl_def upsertToPineconeImpl_def Let_def)

theorem client_config_check_witness:
  "getPineconeClient env_unset None =
      (Inl (Error ''Pinecone API key and environment must be set''), None)
   \<and> queryPineconeImpl env_unset logging_sdk 0 (Some 500) None None [] =
      ((Inl (Error ''Pinecone API key and environment must be set''), []), None)
   \<and> getPineconeClient env_without_index None =
      (Inr \<lparr>pc_apiKey = ''key''\<rparr>, Some \<lparr>pc_apiKey = ''key''\<rparr>)
   \<and> getPineconeClient env_unset (Some \<lparr>pc_apiKey = ''key''\<rparr>) =
      (Inr \<lparr>pc_apiKey = ''key''\<rparr>, Some \<lparr>pc_apiKey = ''key''\<rparr>)"
proof -
  have u: "\<not> truthy (PINECONE_API_KEY env_unset) \<or> \<not> truthy (PINECONE_ENVIRONMENT env_unset)"
    by (simp add: env_unset_def truthy_def)
  have s: "truthy (PINECONE_API_KEY env_without_index) \<and> truthy (PINECONE_ENVIRONMENT env_without_index)"
    by (simp add: env_without_index_def truthy_def)
  have k: "or_else (PINECONE_API_KEY env_without_index) [] = ''key''"
    by (simp add: env_without_index_def or_else_def)
  from client_config_check [of env_unset logging_sdk 0 "Some 500" None "[]" "[]" env_unset "\<lparr>pc_apiKey = ''key''\<rparr>"]
    client_config_check [of env_without_index logging_sdk 0 "Some 500" None "[]" "[]" env_unset "\<lparr>pc_apiKey = ''key''\<rparr>"]
    u s k
  show ?thesis by simp
qed

text \<open>
  C8 as stated fails for the index name: with the API key and the environment name set and
  no index name, construction succeeds, and a query is sent to the default index.
\<close>

theorem missing_index_name_counterexample:
  "PINECONE_INDEX_NAME env_without_index = None
   \<and> getPineconeClient env_without_index None =
       (Inr \<lparr>pc_apiKey = ''key''\<rparr>, Some \<lparr>pc_apiKey = ''key''\<rparr>)
   \<and> queryPineconeImpl env_without_index logging_sdk 0 (Some 500) None None [] =
       ((Inr [], [''adacompliance-index'']), Some \<lparr>pc_apiKey = ''key''\<rparr>)"
  by (simp add: env_without_index_def getPineconeClient_def queryPineconeImpl_def truthy_def
      or_else_def logging_sdk_def)

section \<open>Properties of the compliance analysis\<close>

lemma jsonMatch_sublist:
  assumes "jsonMatch s = Some m"
  shows "sublist m s \<and> m \<noteq> [] \<and> hd m = CHR ''{''"
proof -
  let ?from = "dropWhile (\<lambda>c. c \<noteq> CHR ''{'') s"
  let ?upto = "dropWhile (\<lambda>c. c \<noteq> CHR ''}'') (rev (tl ?from))"
  from assms have ne: "?from \<noteq> []" and m: "m = CHR ''{'' # rev ?upto"
    by (auto simp: jsonMatch_def Let_def split: if_splits)
  from ne have "hd ?from = CHR ''{''" using hd_dropWhile [of "\<lambda>c. c \<noteq> CHR ''{''" s] by simp
  with ne have f: "?from = CHR ''{'' # tl ?from" by (cases ?from) auto
  have "rev (tl ?from) = takeWhile (\<lambda>c. c \<noteq> CHR ''}'') (rev (tl ?from)) @ ?upto" by simp
  then have "tl ?from = rev ?upto @ rev (takeWhile (\<lambda>c. c \<noteq> CHR ''}'') (rev (tl ?from)))"
    by (metis rev_append rev_rev_ident)
  with f m have "?from = m @ rev (takeWhile (\<lambda>c. c \<noteq> CHR ''}'') (rev (tl ?from)))" by simp
  moreover have "s = takeWhile (\<lambda>c. c \<noteq> CHR ''{'') s @ ?from" by simp
  ultimately have "s = takeWhile (\<lambda>c. c \<noteq> CHR ''{'') s @ m @
      rev (takeWhile (\<lambda>c. c \<noteq> CHR ''}'') (rev (tl ?from)))" by simp
  then have "sublist m s" unfolding sublist_def by blast
  with m show ?thesis by simp
qed

lemma parseAnalysis_fallback:
  assumes "\<forall>s. sublist s response \<and> s \<noteq> [] \<and> hd s = CHR ''{'' \<longrightarrow> JSON_parse s = None"
  shows "parseAnalysis JSON_parse response = fallbackAnalysis"
proof (cases "jsonMatch response")
  case None
  then show ?thesis by (simp add: parseAnalysis_def)
next
  case (Some m)
  from jsonMatch_sublist [OF Some] assms have "JSON_parse m = None" by blast
  with Some show ?thesis by (simp add: parseAnalysis_def)
qed

lemma analyzeLoop_append:
  "analyzeLoop sv P (xs @ ys) results w =
     (case analyzeLoop sv P xs results w of (r1, w1) \<Rightarrow> analyzeLoop sv P ys r1 w1)"
  by (induction xs arbitrary: results w) (simp_all split: prod.splits sum.splits)

lemma no_brace_no_candidate:
  assumes "CHR ''{'' \<notin> set response"
  shows "\<forall>s. sublist s response \<and> s \<noteq> [] \<and> hd s = CHR ''{'' \<longrightarrow> P s = None"
proof (intro allI impI)
  fix s assume a: "sublist s response \<and> s \<noteq> [] \<and> hd s = CHR ''{''"
  then have "CHR ''{'' \<in> set s" by (metis hd_in_set)
  moreover from a have "set s \<subseteq> set response" by (auto simp: sublist_def)
  ultimately show "P s = None" using assms by blast
qed

text \<open>
  C9. When no substring of the model's answer that starts with an opening brace parses
  as JSON, the file's result is the fixed fallback report, marked successful and without
  error, and the loop goes on with the remaining files.
\<close>

theorem unparseable_answer_fallback:
  assumes "analyzeLoop sv JSON_parse before results w = (results1, w1)"
    and "extractTextFromDocumentF sv pdfFile (pf_type pdfFile) w1 = (Inr extracted, w2)"
    and "trim extracted \<noteq> []"
    and "findRelevantContext sv ''WCAG 2.1 AA compliance standards requirements'' 10 w2 =
           (Inr wcagContext, w3)"
    and "chatCompletion sv (analysisPrompt wcagContext extracted) wcagContext w3 =
           (Inr analysisResponse, w4)"
    and "\<forall>s. sublist s analysisResponse \<and> s \<noteq> [] \<and> hd s = CHR ''{'' \<longrightarrow> JSON_parse s = None"
  shows "analyzeLoop sv JSON_parse (before @ pdfFile # rest) results w =
           analyzeLoop sv JSON_parse rest
             (results1 @
                [\<lparr>ar_filename = pf_name pdfFile, ar_success = True, ar_error = None,
                  ar_risks = JArr [JStr ''Unable to parse detailed analysis''],
                  ar_summary = JStr ''PDF analyzed but detailed results unavailable'',
                  ar_riskLevel = JStr ''medium'',
                  ar_wcagConformance =
                    JObj [(''level'', JStr ''Non-conformant''), (''passedCriteria'', JArr []),
                          (''failedCriteria'', JArr []),
                          (''warnings'', JArr [JStr ''Analysis parsing failed''])]\<rparr>]) w4"
proof -
  from assms(3) have ne: "extracted \<noteq> []" "length (trim extracted) \<noteq> 0" by (auto simp: trim_def)
  have p: "parseAnalysis JSON_parse analysisResponse = fallbackAnalysis"
    using assms(6) by (rule parseAnalysis_fallback)
  have "analyzeFile sv JSON_parse pdfFile results1 w1 =
          (Inr (results1 @
                [\<lparr>ar_filename = pf_name pdfFile, ar_success = True, ar_error = None,
                  ar_risks = JArr [JStr ''Unable to parse detailed analysis''],
                  ar_summary = JStr ''PDF analyzed but detailed results unavailable'',
                  ar_riskLevel = JStr ''medium'',
                  ar_wcagConformance =
                    JObj [(''level'', JStr ''Non-conformant''), (''passedCriteria'', JArr []),
                          (''failedCriteria'', JArr []),
                          (''warnings'', JArr [JStr ''Analysis parsing failed''])]\<rparr>]), w4)"
    using assms(2,4,5) ne
    by (simp add: analyzeFile_def p Let_def) (simp add: fallbackAnalysis_def or_json_def)
  then show ?thesis
    using assms(1) by (simp add: analyzeLoop_append)
qed

theorem unparseable_answer_fallback_witness:
  "analyzeLoop prose_then_json parse_empty_object
     [\<lparr>pf_name = ''a.pdf'', pf_type = ''application/pdf'', pf_data = ''first document''\<rparr>,
      \<lparr>pf_name = ''b.pdf'', pf_type = ''application/pdf'', pf_data = ''second document''\<rparr>] [] 0 =
     ([\<lparr>ar_filename = ''a.pdf'', ar_success = True, ar_error = None,
        ar_risks = JArr [JStr ''Unable to parse detailed analysis''],
        ar_summary = JStr ''PDF analyzed but detailed results unavailable'',
        ar_riskLevel = JStr ''medium'',
        ar_wcagConformance =
          JObj [(''level'', JStr ''Non-conformant''), (''passedCriteria'', JArr []),
                (''failedCriteria'', JArr []),
                (''warnings'', JArr [JStr ''Analysis parsing failed''])]\<rparr>,
       \<lparr>ar_filename = ''b.pdf'', ar_success = True, ar_error = None,
        ar_risks = JArr [], ar_summary = JStr ''Analysis completed'',
        ar_riskLevel = JStr ''medium'', ar_wcagConformance = emptyConformance\<rparr>], 2)"
proof -
  let ?a = "\<lparr>pf_name = ''a.pdf'', pf_type = ''application/pdf'', pf_data = ''first document''\<rparr>"
  let ?b = "\<lparr>pf_name = ''b.pdf'', pf_type = ''application/pdf'', pf_data = ''second document''\<rparr>"
  let ?answer = "''I am sorry, I cannot produce a report.''"
  have h1: "analyzeLoop prose_then_json parse_empty_object [] [] 0 = ([], 0)" by simp
  have h2: "extractTextFromDocumentF prose_then_json ?a (pf_type ?a) 0 = (Inr ''first document'', 0)"
    by (simp add: prose_then_json_def)
  have h3: "trim ''first document'' \<noteq> []" by (simp add: trim_def is_space_def)
  have h4: "findRelevantContext prose_then_json ''WCAG 2.1 AA compliance standards requirements'' 10 0
              = (Inr ''WCAG context'', 0)"
    by (simp add: prose_then_json_def)
  have h5: "chatCompletion prose_then_json (analysisPrompt ''WCAG context'' ''first document'')
              ''WCAG context'' 0 = (Inr ?answer, Suc 0)"
    by (simp add: prose_then_json_def)
  have h6: "\<forall>s. sublist s ?answer \<and> s \<noteq> [] \<and> hd s = CHR ''{'' \<longrightarrow> parse_empty_object s = None"
    by (rule no_brace_no_candidate) simp
  have m: "jsonMatch ''Here it is: {}'' = Some ''{}''"
    by (simp add: jsonMatch_def)
  have second: "analyzeFile prose_then_json parse_empty_object ?b rs (Suc 0) =
      (Inr (rs @ [\<lparr>ar_filename = ''b.pdf'', ar_success = True, ar_error = None,
        ar_risks = JArr [], ar_summary = JStr ''Analysis completed'',
        ar_riskLevel = JStr ''medium'', ar_wcagConformance = emptyConformance\<rparr>]), 2)" for rs
    by (simp add: analyzeFile_def prose_then_json_def trim_def is_space_def parseAnalysis_def m
        parse_empty_object_def or_json_def)
  from unparseable_answer_fallback [OF h1 h2 h3 h4 h5 h6, of "[?b]"] show ?thesis
    by (simp add: second)
qed

section \<open>Properties of the discovery crawler\<close>

lemma hops_mono:
  assumes "hops pf log startUrl n u" and "set log \<subseteq> set log'"
  shows "hops pf log' startUrl n u"
  using assms
proof (induction rule: hops.induct)
  case seed
  show ?case by (rule hops.seed)
next
  case (hop n u page links v)
  from hop.IH [OF hop.prems] hop.hyps(2-4) hop.prems show ?case
    by (auto intro: hops.hop)
qed

lemma enqueueLinks_unchanged:
  "visited (enqueueLinks ls d s) = visited s \<and> fetchLog (enqueueLinks ls d s) = fetchLog s
   \<and> pdfLinks (enqueueLinks ls d s) = pdfLinks s \<and> world (enqueueLinks ls d s) = world s"
  by (induction ls d s rule: enqueueLinks.induct) auto

lemma enqueueLinks_depthMap:
  "depthMap (enqueueLinks ls d s) u =
     (case depthMap s u of
        Some x \<Rightarrow> Some x
      | None \<Rightarrow> if u \<in> set ls \<and> u \<notin> visited s then Some (d + 1) else None)"
  by (induction ls d s rule: enqueueLinks.induct) (auto split: option.splits)

lemma enqueueLinks_queue:
  "set (queue s) \<subseteq> dom (depthMap s) \<Longrightarrow>
   set (queue (enqueueLinks ls d s)) \<subseteq> dom (depthMap (enqueueLinks ls d s))"
proof (induction ls arbitrary: s)
  case Nil
  then show ?case by simp
next
  case (Cons pageLink rest)
  show ?case
  proof (cases "pageLink \<notin> visited s \<and> depthMap s pageLink = None")
    case True
    let ?s = "s\<lparr>queue := queue s @ [pageLink], depthMap := (depthMap s)(pageLink \<mapsto> d + 1)\<rparr>"
    from Cons.prems have "set (queue ?s) \<subseteq> dom (depthMap ?s)" by auto
    from Cons.IH [OF this] True show ?thesis by simp
  next
    case False
    with Cons.IH [OF Cons.prems] show ?thesis by auto
  qed
qed

lemma crawl_inv_init: "crawl_inv pf startUrl (crawlInit startUrl w)"
  by (auto simp: crawl_inv_def crawlInit_def intro: hops.seed split: if_splits)

lemma crawl_inv_pop:
  assumes "crawl_inv pf startUrl s"
  shows "crawl_inv pf startUrl (s\<lparr>queue := tl (queue s)\<rparr>)"
proof -
  have "set (tl (queue s)) \<subseteq> set (queue s)" by (cases "queue s") auto
  with assms show ?thesis by (auto simp: crawl_inv_def)
qed

lemma crawl_inv_fetch:
  assumes inv: "crawl_inv pf startUrl s" and q: "queue s \<noteq> []"
    and nv: "hd (queue s) \<notin> visited s"
  shows "crawl_inv pf startUrl
           (s\<lparr>queue := tl (queue s), visited := insert (hd (queue s)) (visited s), world := w',
               fetchLog := fetchLog s @ [(hd (queue s), html)]\<rparr>)"
proof -
  let ?u = "hd (queue s)"
  from q have uq: "?u \<in> set (queue s)" by simp
  with inv have ud: "?u \<in> dom (depthMap s)" by (auto simp: crawl_inv_def)
  have hm: "hops pf (fetchLog s @ [(?u, html)]) startUrl d v" if "hops pf (fetchLog s) startUrl d v" for d v
    using that by (rule hops_mono) auto
  from inv nv have "?u \<notin> fst ` set (fetchLog s)" by (simp add: crawl_inv_def)
  moreover have "set (tl (queue s)) \<subseteq> set (queue s)" by (cases "queue s") auto
  ultimately show ?thesis using inv ud hm
    by (auto simp: crawl_inv_def)
qed

lemma crawl_inv_pdfs:
  "crawl_inv pf startUrl s \<Longrightarrow> crawl_inv pf startUrl (s\<lparr>pdfLinks := pdfs\<rparr>)"
  by (simp add: crawl_inv_def)

lemma crawl_inv_enqueue:
  assumes inv: "crawl_inv pf startUrl s"
    and u: "depthMap s u = Some depth" and d: "depth < maxDepth"
    and log: "(u, Some page) \<in> set (fetchLog s)"
    and links: "pageLinksOf pf page u = Some pageLinks"
  shows "crawl_inv pf startUrl (enqueueLinks pageLinks depth s)"
proof -
  let ?s = "enqueueLinks pageLinks depth s"
  note un = enqueueLinks_unchanged [of pageLinks depth s]
  have "set (queue ?s) \<subseteq> dom (depthMap ?s)"
    using inv by (intro enqueueLinks_queue) (simp add: crawl_inv_def)
  moreover have "visited ?s \<subseteq> dom (depthMap ?s)"
    using inv un by (auto simp: crawl_inv_def enqueueLinks_depthMap split: option.splits)
  moreover have "e \<le> maxDepth \<and> hops pf (fetchLog ?s) startUrl e v" if "depthMap ?s v = Some e" for v e
  proof (cases "depthMap s v")
    case (Some x)
    with that have "e = x" by (simp add: enqueueLinks_depthMap)
    with Some inv un show ?thesis by (simp add: crawl_inv_def)
  next
    case None
    with that have v: "v \<in> set pageLinks" and e: "e = Suc depth"
      by (auto simp: enqueueLinks_depthMap split: if_splits)
    from inv u have "hops pf (fetchLog s) startUrl depth u" by (simp add: crawl_inv_def)
    from hops.hop [OF this log links v] e d un show ?thesis by simp
  qed
  ultimately show ?thesis using inv un by (simp add: crawl_inv_def)
qed

lemma crawl_inv_step:
  assumes inv: "crawl_inv pf startUrl s" and q: "queue s \<noteq> []"
    and st: "crawlStep pf maxPdfs s = Inr s'"
  shows "crawl_inv pf startUrl s'"
proof (cases "hd (queue s) \<in> visited s \<or> depth_of (depthMap s) (hd (queue s)) > maxDepth")
  case True
  with st have "s' = s\<lparr>queue := tl (queue s)\<rparr>" by (auto simp: crawlStep_def Let_def)
  with inv show ?thesis by (simp add: crawl_inv_pop)
next
  case False
  let ?u = "hd (queue s)"
  obtain html w' where f: "fetchPage pf ?u (world s) = (html, w')" by (cases "fetchPage pf ?u (world s)")
  define s2 where "s2 = s\<lparr>queue := tl (queue s), visited := insert ?u (visited s), world := w',
               fetchLog := fetchLog s @ [(?u, html)]\<rparr>"
  from False have nv: "?u \<notin> visited s" by simp
  have i2: "crawl_inv pf startUrl s2"
    unfolding s2_def using inv q nv by (rule crawl_inv_fetch)
  from q have "?u \<in> set (queue s)" by simp
  with inv have "?u \<in> dom (depthMap s)" by (auto simp: crawl_inv_def)
  then obtain depth where dm: "depthMap s ?u = Some depth" by auto
  then have dep: "depth_of (depthMap s) ?u = depth" by (simp add: depth_of_def)
  have "s' = s2 \<or> (\<exists>pdfs. s' = s2\<lparr>pdfLinks := pdfs\<rparr>)
      \<or> (\<exists>pdfs page pageLinks. s' = enqueueLinks pageLinks depth (s2\<lparr>pdfLinks := pdfs\<rparr>)
            \<and> html = Some page \<and> depth < maxDepth \<and> pageLinksOf pf page ?u = Some pageLinks)"
    using st False f dep
    by (auto simp: crawlStep_def Let_def s2_def split: option.splits if_splits)
  then consider (plain) "s' = s2" | (pdfs) pdfs where "s' = s2\<lparr>pdfLinks := pdfs\<rparr>"
    | (enq) pdfs page pageLinks where "s' = enqueueLinks pageLinks depth (s2\<lparr>pdfLinks := pdfs\<rparr>)"
        "html = Some page" "depth < maxDepth" "pageLinksOf pf page ?u = Some pageLinks"
    by blast
  then show ?thesis
  proof cases
    case plain
    with i2 show ?thesis by simp
  next
    case pdfs
    with i2 show ?thesis by (simp add: crawl_inv_pdfs)
  next
    case enq
    have "crawl_inv pf startUrl (enqueueLinks pageLinks depth (s2\<lparr>pdfLinks := pdfs\<rparr>))"
    proof (rule crawl_inv_enqueue [OF crawl_inv_pdfs [OF i2]])
      show "depthMap (s2\<lparr>pdfLinks := pdfs\<rparr>) ?u = Some depth" using dm by (simp add: s2_def)
      show "depth < maxDepth" by (rule enq(3))
      show "(?u, Some page) \<in> set (fetchLog (s2\<lparr>pdfLinks := pdfs\<rparr>))" using enq(2) by (simp add: s2_def)
      show "pageLinksOf pf page ?u = Some pageLinks" by (rule enq(4))
    qed
    with enq(1) show ?thesis by simp
  qed
qed

lemma crawlReach_inv:
  assumes "crawlReach pf maxPdfs startUrl w s"
  shows "crawl_inv pf startUrl s"
  using assms
proof (induction rule: crawlReach.induct)
  case start
  show ?case by (rule crawl_inv_init)
next
  case (turn s s')
  from turn.IH turn.hyps(2,4) show ?case by (rule crawl_inv_step)
qed

lemma crawlLoop_crawlReach:
  assumes "crawlLoop pf maxPdfs s = Some (Inr s')"
    and "crawlReach pf maxPdfs startUrl w s"
  shows "crawlReach pf maxPdfs startUrl w s'"
proof -
  have "\<forall>s'. r = Inr s' \<longrightarrow> crawlReach pf' m startUrl w s \<longrightarrow> crawlReach pf' m startUrl w s'"
    if "crawlLoop pf' m s = Some r" for pf' :: "'a platform" and m s r
  proof (rule crawlLoop.raw_induct
      [where P = "\<lambda>pf' m s r. \<forall>s'. r = Inr s' \<longrightarrow> crawlReach pf' m startUrl w s
                    \<longrightarrow> crawlReach pf' m startUrl w s'", OF _ that])
    fix loop :: "'a platform \<Rightarrow> nat \<Rightarrow> 'a crawl_state \<Rightarrow> (exn + 'a crawl_state) option"
      and pf' m s r
    assume IH: "\<And>a b c y. loop a b c = Some y \<Longrightarrow>
                  \<forall>s'. y = Inr s' \<longrightarrow> crawlReach a b startUrl w c \<longrightarrow> crawlReach a b startUrl w s'"
      and body: "(if queue s \<noteq> [] \<and> length (pdfLinks s) < m
                  then case crawlStep pf' m s of Inl e \<Rightarrow> Some (Inl e) | Inr s' \<Rightarrow> loop pf' m s'
                  else Some (Inr s)) = Some r"
    show "\<forall>s'. r = Inr s' \<longrightarrow> crawlReach pf' m startUrl w s \<longrightarrow> crawlReach pf' m startUrl w s'"
    proof (intro allI impI)
      fix s' assume r: "r = Inr s'" and reach: "crawlReach pf' m startUrl w s"
      show "crawlReach pf' m startUrl w s'"
      proof (cases "queue s \<noteq> [] \<and> length (pdfLinks s) < m")
        case False
        with body r have "s' = s" by (auto split: if_splits)
        with reach show ?thesis by simp
      next
        case True
        with body r obtain s1 where st: "crawlStep pf' m s = Inr s1"
          and l: "loop pf' m s1 = Some (Inr s')"
          by (auto split: sum.splits)
        from reach True st have "crawlReach pf' m startUrl w s1"
          by (auto intro: crawlReach.turn)
        with IH [OF l] show ?thesis by simp
      qed
    qed
  qed
  with assms show ?thesis by blast
qed

text \<open>
  C7. In every state the crawl loop passes through, the URLs fetched so far are pairwise
  different and are exactly the visited set, and every fetched URL has a recorded depth of
  at most 3 that is the length of a chain of followed links from the seed through fetched
  pages. So a page that only chains of four or more hops lead to is never fetched.
\<close>

theorem crawl_fetch_once_within_depth:
  assumes "crawlReach pf maxPdfs startUrl w s"
  shows "distinct (map fst (fetchLog s))
       \<and> fst ` set (fetchLog s) = visited s
       \<and> (\<forall>u \<in> fst ` set (fetchLog s).
            \<exists>d. depthMap s u = Some d \<and> depth_of (depthMap s) u = d \<and> d \<le> 3
              \<and> hops pf (fetchLog s) startUrl d u)"
proof -
  from assms have inv: "crawl_inv pf startUrl s" by (rule crawlReach_inv)
  have "\<exists>d. depthMap s u = Some d \<and> depth_of (depthMap s) u = d \<and> d \<le> 3
              \<and> hops pf (fetchLog s) startUrl d u" if "u \<in> fst ` set (fetchLog s)" for u
  proof -
    from that inv have "u \<in> dom (depthMap s)" by (auto simp: crawl_inv_def)
    then obtain d where d: "depthMap s u = Some d" by auto
    with inv have "d \<le> maxDepth" "hops pf (fetchLog s) startUrl d u"
      by (simp_all add: crawl_inv_def)
    with d show ?thesis by (simp add: depth_of_def maxDepth_def)
  qed
  with inv show ?thesis by (simp add: crawl_inv_def)
qed

lemma chain_crawl_log:
  "map_option (map_sum id (\<lambda>s. map fst (fetchLog s)))
     (crawlLoop (table_platform chain_site) 10 (crawlInit ''https://chain.test'' 0)) =
   Some (Inr [''https://chain.test'', ''https://chain.test/s.pdf?p=1'',
              ''https://chain.test/s.pdf?p=2'', ''https://chain.test/s.pdf?p=3''])"
  by code_simp

theorem crawl_fetch_once_within_depth_witness:
  "case crawlLoop (table_platform chain_site) 10 (crawlInit ''https://chain.test'' 0) of
     Some (Inr s) \<Rightarrow>
       map fst (fetchLog s) =
         [''https://chain.test'', ''https://chain.test/s.pdf?p=1'',
          ''https://chain.test/s.pdf?p=2'', ''https://chain.test/s.pdf?p=3'']
       \<and> distinct (map fst (fetchLog s))
       \<and> ''https://chain.test/s.pdf?p=4'' \<notin> visited s
       \<and> (\<forall>u \<in> visited s. depth_of (depthMap s) u \<le> 3)
   | _ \<Rightarrow> False"
proof -
  from chain_crawl_log obtain r where
    r: "crawlLoop (table_platform chain_site) 10 (crawlInit ''https://chain.test'' 0) = Some r"
    and m: "map_sum id (\<lambda>s. map fst (fetchLog s)) r =
         Inr [''https://chain.test'', ''https://chain.test/s.pdf?p=1'',
          ''https://chain.test/s.pdf?p=2'', ''https://chain.test/s.pdf?p=3'']"
    by auto
  from m obtain s where s: "r = Inr s" by (cases r) auto
  from r s have
    l: "crawlLoop (table_platform chain_site) 10 (crawlInit ''https://chain.test'' 0) = Some (Inr s)"
    by simp
  from m s have f: "map fst (fetchLog s) =
         [''https://chain.test'', ''https://chain.test/s.pdf?p=1'',
          ''https://chain.test/s.pdf?p=2'', ''https://chain.test/s.pdf?p=3'']"
    by simp
  have "crawlReach (table_platform chain_site) 10 ''https://chain.test'' 0 s"
    using l crawlReach.start by (rule crawlLoop_crawlReach)
  from crawl_fetch_once_within_depth [OF this]
  have d: "distinct (map fst (fetchLog s))"
    and v: "fst ` set (fetchLog s) = visited s"
    and e: "\<forall>u \<in> fst ` set (fetchLog s).
            \<exists>d. depthMap s u = Some d \<and> depth_of (depthMap s) u = d \<and> d \<le> 3
              \<and> hops (table_platform chain_site) (fetchLog s) ''https://chain.test'' d u"
    by blast+
  have b: "\<forall>u \<in> visited s. depth_of (depthMap s) u \<le> 3"
  proof
    fix u assume "u \<in> visited s"
    with v have "u \<in> fst ` set (fetchLog s)" by simp
    with e obtain k where "depth_of (depthMap s) u = k" "k \<le> 3" by blast
    then show "depth_of (depthMap s) u \<le> 3" by simp
  qed
  from f have "set (map fst (fetchLog s)) =
         set [''https://chain.test'', ''https://chain.test/s.pdf?p=1'',
          ''https://chain.test/s.pdf?p=2'', ''https://chain.test/s.pdf?p=3'']" by simp
  with v have "''https://chain.test/s.pdf?p=4'' \<notin> visited s" by auto
  with l f d v b show ?thesis by simp
qed

text \<open>
  C1. On the specification's example site the crawl returns the record of \<open>a.pdf\<close> only.
  The homepage has the two links, but the page links of line 112 are taken from
  \<open>extractPDFLinks\<close>, which keeps PDF links only: \<open>/page2\<close> is not among them, is never
  queued, and \<open>b.pdf\<close> is never found.
\<close>

theorem example_scenario_misses_second_pdf:
  \<open>crawlForPDFs (table_platform example_site) ''https://example.com'' 10 0 =
     Some (Inr [\<lparr>pl_url = ''https://example.com/docs/a.pdf'', pl_name = ''a.pdf''\<rparr>])
   \<and> hrefs ''<a href="/docs/a.pdf">A</a> <a href="/page2">next</a>'' = [''/docs/a.pdf'', ''/page2'']
   \<and> pageLinksOf (table_platform example_site)
        ''<a href="/docs/a.pdf">A</a> <a href="/page2">next</a>'' ''https://example.com'' = Some []
   \<and> map_option (map_sum id (\<lambda>s. map fst (fetchLog s)))
        (crawlLoop (table_platform example_site) 10 (crawlInit ''https://example.com'' 0)) =
       Some (Inr [''https://example.com''])\<close>
  by code_simp

end
